theory Spec2Isabelle
  imports Main "HOL-Library.AList" "HOL-Library.Char_ord" "HOL-Library.List_Lexorder"
begin

section \<open>The annotation tool of Few_Shot: data model\<close>

text \<open>
  The repository holds two variants of the same Tk application:
  \<^verbatim>\<open>Few_Shot/draw_boxes.py\<close> (the older one: clamping of boxes, progress as the last
  completed name) and \<^verbatim>\<open>Few_Shot/draw_boxes_.py\<close> (the newer one: undo stack,
  annotation types, progress as a list of completed names). Definitions without a suffix
  embed \<^verbatim>\<open>draw_boxes_.py\<close>; definitions ending in \<open>_v1\<close> embed \<^verbatim>\<open>draw_boxes.py\<close>.

  Modelling decisions, all of them about what lies outside the engine:
  \<^item> Pointer coordinates are integers. \<^verbatim>\<open>canvas.canvasx\<close> returns the pixel
    coordinate as a float with an integral value, so \<^verbatim>\<open>int(...)\<close> is the
    identity on it.
  \<^item> A Python list of boxes is a mutable object. It lives in \<open>heap\<close> under an address,
    and the dictionaries hold addresses: two dictionaries holding the same address share
    the list, as in Python. Dictionaries are association lists in insertion order
    (\<open>AList.update\<close> overwrites in place or appends, as a \<^verbatim>\<open>dict\<close> does).
  \<^item> Canvas items, labels, buttons and the status bar are presentation and are left
    out; message boxes are recorded in \<open>dialogs\<close>, with the fixed part of their text.
  \<^item> The answers of the user to \<^verbatim>\<open>askyesno\<close> and \<^verbatim>\<open>askstring\<close> are
    arguments of the operation that asks.
  \<^item> The file system is the record \<open>env\<close> (what can be listed, which images decode,
    how writing each file ends) and the three JSON files in \<open>files\<close>.
    \<^verbatim>\<open>os.listdir\<close> on a discovered subfolder is taken to succeed.
  \<^item> A character is a code point from 0 to 255 (Latin-1); \<open>lower\<close> and \<open>strip\<close> are
    \<^verbatim>\<open>str.lower\<close> and \<^verbatim>\<open>str.strip\<close> of Python on such text. Text with code points
    above 255 is outside the model.
\<close>

type_synonym bbox = "int list"

type_synonym addr = nat

datatype dialog = ShowInfo string | ShowError string

datatype 'a json_file = Missing | Unparsable | Parsed 'a

datatype types_json = Types_list "string list" | Types_other

text \<open>
  How \<^verbatim>\<open>with open(path, 'w') as f: json.dump(data, f)\<close> ends: the file is written; or
  \<^verbatim>\<open>open\<close> raises and the file is as before; or the error comes after \<^verbatim>\<open>open\<close> has
  truncated the file, which then holds a proper prefix of the JSON text (possibly nothing)
  and cannot be parsed.
\<close>

datatype write_result = Written | Open_error | Write_error

type_synonym annotations_json = "(string \<times> string option \<times> (string \<times> bbox list) list) list"

record disk =
  annotations_file :: "annotations_json json_file"
  progress_file :: "string list option json_file"
  types_file :: "types_json json_file"

record env =
  chosen_folder :: string
  main_listing :: "string list option"
  listdir :: "string \<Rightarrow> string list"
  image_ok :: "string \<Rightarrow> string \<Rightarrow> bool"
  write_outcome :: "string \<Rightarrow> write_result"

record drawing_state =
  image_name :: "string option"
  start_x :: int
  start_y :: int
  active_rect_id :: bool

record subfolder_data =
  type_of_annotation :: "string option"
  annotations :: "(string \<times> addr) list"

record app =
  subfolders :: "string list"
  current_subfolder_index :: int
  current_subfolder_name :: string
  annotations_data :: "(string \<times> subfolder_data) list"
  progress_data :: "string list option"
  current_image_names :: "string option list"
  annotation_type_var :: string
  annotation_types :: "string list"
  combo_values :: "string list"
  current_subfolder_active_annotations :: "(string \<times> addr) list"
  canvas_drawing_state :: "nat \<Rightarrow> drawing_state"
  undo_stack :: "(nat \<times> string) list"
  unsaved_changes :: bool
  heap :: "addr \<Rightarrow> bbox list"
  next_addr :: addr
  files :: disk
  dialogs :: "dialog list"
  root_destroyed :: bool

definition IMAGE_DISPLAY_SIZE :: "int \<times> int" where
  "IMAGE_DISPLAY_SIZE = (500, 500)"

definition ANNOTATIONS_FILE :: string where
  "ANNOTATIONS_FILE = ''annotations.json''"

definition PROGRESS_FILE :: string where
  "PROGRESS_FILE = ''progress.json''"

definition ANNOTATION_TYPES_FILE :: string where
  "ANNOTATION_TYPES_FILE = ''annotation_types.json''"

subsection \<open>Strings\<close>

text \<open>
  The capitals below code point 256 are \<open>A\<close> to \<open>Z\<close> and the Latin-1 capitals 192 to 222
  without the multiplication sign 215; each has its small letter 32 places later. The
  white space that \<^verbatim>\<open>str.strip\<close> removes is 9 to 13, 28 to 32, 133 (next line) and 160
  (no-break space).
\<close>

definition is_upper :: "char \<Rightarrow> bool" where
  "is_upper c =
     ((65 \<le> (of_char c :: nat) \<and> (of_char c :: nat) \<le> 90)
      \<or> (192 \<le> (of_char c :: nat) \<and> (of_char c :: nat) \<le> 214)
      \<or> (216 \<le> (of_char c :: nat) \<and> (of_char c :: nat) \<le> 222))"

definition lower_char :: "char \<Rightarrow> char" where
  "lower_char c = (if is_upper c then char_of ((of_char c :: nat) + 32) else c)"

definition lower :: "string \<Rightarrow> string" where
  "lower s = map lower_char s"

definition is_space :: "char \<Rightarrow> bool" where
  "is_space c = ((of_char c :: nat) \<in> {9, 10, 11, 12, 13, 28, 29, 30, 31, 32, 133, 160})"

definition strip :: "string \<Rightarrow> string" where
  "strip s = rev (dropWhile is_space (rev (dropWhile is_space s)))"

definition endswith :: "string \<Rightarrow> string \<Rightarrow> bool" where
  "endswith s suf = (length suf \<le> length s \<and> drop (length s - length suf) s = suf)"

subsection \<open>What a dictionary of lists holds\<close>

text \<open>
  \<open>boxes_of h d k\<close> is \<^verbatim>\<open>d.get(k, [])\<close> read through the heap: the boxes recorded for
  the image \<open>k\<close>. \<open>freeze\<close> is what \<^verbatim>\<open>json.dump\<close> writes for the annotation store.
\<close>

definition boxes_of :: "(addr \<Rightarrow> bbox list) \<Rightarrow> (string \<times> addr) list \<Rightarrow> string \<Rightarrow> bbox list" where
  "boxes_of h d k = (case map_of d k of None \<Rightarrow> [] | Some a \<Rightarrow> h a)"

definition freeze_images :: "(addr \<Rightarrow> bbox list) \<Rightarrow> (string \<times> addr) list \<Rightarrow> (string \<times> bbox list) list" where
  "freeze_images h d = map (\<lambda>(k, a). (k, h a)) d"

definition freeze :: "(addr \<Rightarrow> bbox list) \<Rightarrow> (string \<times> subfolder_data) list \<Rightarrow> annotations_json" where
  "freeze h st = map (\<lambda>(g, d). (g, type_of_annotation d, freeze_images h (annotations d))) st"

section \<open>draw\_boxes\_.py\<close>

subsection \<open>Writing files\<close>

definition write_fails :: "env \<Rightarrow> string \<Rightarrow> bool" where
  "write_fails e file_path = (write_outcome e file_path \<noteq> Written)"

definition truncate_file :: "string \<Rightarrow> disk \<Rightarrow> disk" where
  "truncate_file file_path d =
     (if file_path = ANNOTATIONS_FILE then d\<lparr>annotations_file := Unparsable\<rparr>
      else if file_path = PROGRESS_FILE then d\<lparr>progress_file := Unparsable\<rparr>
      else if file_path = ANNOTATION_TYPES_FILE then d\<lparr>types_file := Unparsable\<rparr>
      else d)"

text \<open>
  \<^verbatim>\<open>_write_json_file\<close>: an \<^verbatim>\<open>IOError\<close> is caught and shown in a message box;
  nothing is returned to the caller. \<open>put\<close> is the effect of a completed dump on the
  disk.
\<close>

definition write_json_file :: "env \<Rightarrow> string \<Rightarrow> (disk \<Rightarrow> disk) \<Rightarrow> app \<Rightarrow> app" where
  "write_json_file e file_path put s =
     (case write_outcome e file_path of
        Written \<Rightarrow> s\<lparr>files := put (files s)\<rparr>
      | Open_error \<Rightarrow>
          s\<lparr>dialogs := dialogs s @ [ShowError (''Could not save to '' @ file_path)]\<rparr>
      | Write_error \<Rightarrow>
          s\<lparr>files := truncate_file file_path (files s),
            dialogs := dialogs s @ [ShowError (''Could not save to '' @ file_path)]\<rparr>)"

definition save_annotation_types :: "env \<Rightarrow> app \<Rightarrow> app" where
  "save_annotation_types e s =
     write_json_file e ANNOTATION_TYPES_FILE
       (\<lambda>d. d\<lparr>types_file := Parsed (Types_list (annotation_types s))\<rparr>) s"

subsection \<open>Loading a subfolder\<close>

definition clear_display_and_current_data :: "app \<Rightarrow> app" where
  "clear_display_and_current_data s =
     s\<lparr>current_image_names := replicate 4 None,
       current_subfolder_active_annotations := [],
       undo_stack := [],
       unsaved_changes := False\<rparr>"

definition is_image_file :: "string \<Rightarrow> bool" where
  "is_image_file f =
     (endswith (lower f) ''.png'' \<or> endswith (lower f) ''.jpg'' \<or> endswith (lower f) ''.jpeg'')"

definition image_files_of :: "env \<Rightarrow> string \<Rightarrow> string list" where
  "image_files_of e name = sort (filter is_image_file (listdir e name))"

text \<open>
  One round of the loop \<^verbatim>\<open>for i in range(4)\<close> of \<^verbatim>\<open>_load_subfolder_by_index\<close>.
  A slot whose image does not decode takes the \<^verbatim>\<open>except\<close> branch, which changes no
  data; the drawing state of its canvas keeps what it held.
\<close>

definition load_slot :: "env \<Rightarrow> string \<Rightarrow> string list \<Rightarrow> (string \<times> addr) list \<Rightarrow> app \<Rightarrow> nat \<Rightarrow> app" where
  "load_slot e name image_files ann s i =
     (if i < length image_files then
        (let img_name = image_files ! i in
         if image_ok e name img_name then
           s\<lparr>current_image_names := (current_image_names s)[i := Some img_name],
             canvas_drawing_state := (canvas_drawing_state s)
               (i := \<lparr>image_name = Some img_name, start_x = 0, start_y = 0, active_rect_id = False\<rparr>),
             current_subfolder_active_annotations :=
               AList.update img_name (next_addr s) (current_subfolder_active_annotations s),
             heap := (heap s)(next_addr s := boxes_of (heap s) ann img_name),
             next_addr := Suc (next_addr s)\<rparr>
         else s)
      else s)"

definition load_subfolder_by_index :: "env \<Rightarrow> int \<Rightarrow> app \<Rightarrow> app" where
  "load_subfolder_by_index e idx s =
     (if \<not> (0 \<le> idx \<and> idx < int (length (subfolders s))) then
        s\<lparr>dialogs := dialogs s @
             [ShowInfo ''You have reached the beginning or end of the subfolders.'']\<rparr>
      else
        (let s1 = clear_display_and_current_data s;
             name = subfolders s ! nat idx;
             s2 = s1\<lparr>current_subfolder_index := idx, current_subfolder_name := name\<rparr>;
             image_files = image_files_of e name;
             subfolder_data = map_of (annotations_data s2) name;
             annotation_type =
               (case subfolder_data of
                  None \<Rightarrow> annotation_type_var s2
                | Some d \<Rightarrow> (case type_of_annotation d of
                              None \<Rightarrow> annotation_type_var s2
                            | Some t \<Rightarrow> t));
             annotation_type' =
               (if annotation_type \<notin> set (combo_values s2)
                then (case combo_values s2 of [] \<Rightarrow> [] | v # _ \<Rightarrow> v)
                else annotation_type);
             s3 = s2\<lparr>annotation_type_var := annotation_type'\<rparr>;
             ann = (case subfolder_data of None \<Rightarrow> [] | Some d \<Rightarrow> annotations d);
             s4 = foldl (load_slot e name image_files ann) s3 [0, 1, 2, 3]
         in s4\<lparr>unsaved_changes := False\<rparr>))"

subsection \<open>Drawing and undoing\<close>

definition on_canvas_press :: "nat \<Rightarrow> int \<Rightarrow> int \<Rightarrow> app \<Rightarrow> app" where
  "on_canvas_press c x y s =
     (let state = canvas_drawing_state s c in
      if image_name state = None then s
      else s\<lparr>canvas_drawing_state := (canvas_drawing_state s)
               (c := state\<lparr>start_x := x, start_y := y, active_rect_id := True\<rparr>)\<rparr>)"

text \<open>
  \<^verbatim>\<open>setdefault(img_name, []).append(bbox)\<close>: the list of the image is extended in
  place; an image without an entry gets a new list first.
\<close>

definition append_bbox :: "string \<Rightarrow> bbox \<Rightarrow> app \<Rightarrow> app" where
  "append_bbox img_name bbox s =
     (case map_of (current_subfolder_active_annotations s) img_name of
        Some a \<Rightarrow> s\<lparr>heap := (heap s)(a := heap s a @ [bbox])\<rparr>
      | None \<Rightarrow>
          s\<lparr>current_subfolder_active_annotations :=
              AList.update img_name (next_addr s) (current_subfolder_active_annotations s),
            heap := (heap s)(next_addr s := [bbox]),
            next_addr := Suc (next_addr s)\<rparr>)"

definition on_canvas_release :: "nat \<Rightarrow> int \<Rightarrow> int \<Rightarrow> app \<Rightarrow> app" where
  "on_canvas_release c x y s =
     (let state = canvas_drawing_state s c in
      if \<not> active_rect_id state then s
      else
        (let s1 = s\<lparr>canvas_drawing_state := (canvas_drawing_state s)
                      (c := state\<lparr>active_rect_id := False\<rparr>)\<rparr>;
             x1 = start_x state; y1 = start_y state;
             x2 = x; y2 = y;
             bbox = [min x1 x2, min y1 y2, max x1 x2, max y1 y2]
         in if bbox ! 2 - bbox ! 0 < 5 \<or> bbox ! 3 - bbox ! 1 < 5 then s1
            else (case image_name state of
                    None \<Rightarrow> s1
                  | Some img_name \<Rightarrow>
                      (append_bbox img_name bbox s1)
                        \<lparr>undo_stack := undo_stack s1 @ [(c, img_name)],
                         unsaved_changes := True\<rparr>)))"

definition action_undo_last_bbox :: "app \<Rightarrow> app" where
  "action_undo_last_bbox s =
     (if undo_stack s = [] then s
      else
        (let img_name = snd (last (undo_stack s));
             s1 = s\<lparr>undo_stack := butlast (undo_stack s)\<rparr>;
             s2 = (case map_of (current_subfolder_active_annotations s1) img_name of
                     None \<Rightarrow> s1
                   | Some a \<Rightarrow>
                       if heap s1 a = [] then s1
                       else s1\<lparr>heap := (heap s1)(a := butlast (heap s1 a))\<rparr>)
         in s2\<lparr>unsaved_changes := True\<rparr>))"

subsection \<open>Saving and navigating\<close>

definition action_save_annotations :: "env \<Rightarrow> bool \<Rightarrow> app \<Rightarrow> bool \<times> app" where
  "action_save_annotations e called_from_next s =
     (if current_subfolder_name s = [] then (False, s)
      else
        (let s1 = s\<lparr>annotations_data :=
                      AList.update (current_subfolder_name s)
                        \<lparr>type_of_annotation = Some (annotation_type_var s),
                         annotations = current_subfolder_active_annotations s\<rparr>
                        (annotations_data s)\<rparr>;
             s2 = write_json_file e ANNOTATIONS_FILE
                    (\<lambda>d. d\<lparr>annotations_file := Parsed (freeze (heap s1) (annotations_data s1))\<rparr>) s1;
             completed = (case progress_data s2 of None \<Rightarrow> [] | Some cs \<Rightarrow> cs);
             completed' = (if current_subfolder_name s2 \<notin> set completed
                           then completed @ [current_subfolder_name s2] else completed);
             s3 = s2\<lparr>progress_data := Some completed'\<rparr>;
             s4 = write_json_file e PROGRESS_FILE
                    (\<lambda>d. d\<lparr>progress_file := Parsed (progress_data s3)\<rparr>) s3;
             s5 = s4\<lparr>unsaved_changes := False\<rparr>
         in if \<not> called_from_next
            then (True, load_subfolder_by_index e (current_subfolder_index s5) s5)
            else (True, s5)))"

definition action_save_and_next :: "env \<Rightarrow> app \<Rightarrow> app" where
  "action_save_and_next e s =
     (case action_save_annotations e True s of
        (True, s1) \<Rightarrow> load_subfolder_by_index e (current_subfolder_index s1 + 1) s1
      | (False, s1) \<Rightarrow> s1)"

definition action_previous_subfolder :: "env \<Rightarrow> bool \<Rightarrow> app \<Rightarrow> app" where
  "action_previous_subfolder e go_without_saving s =
     (if unsaved_changes s \<and> \<not> go_without_saving then s
      else load_subfolder_by_index e (current_subfolder_index s - 1) s)"

text \<open>
  \<^verbatim>\<open>_action_clear_current_annotations\<close>: every key of the working dictionary gets a
  new empty list, then the subfolder is loaded again.
\<close>

definition clear_lists :: "app \<Rightarrow> app" where
  "clear_lists s =
     foldl (\<lambda>s img_name.
              s\<lparr>current_subfolder_active_annotations :=
                  AList.update img_name (next_addr s) (current_subfolder_active_annotations s),
                heap := (heap s)(next_addr s := []),
                next_addr := Suc (next_addr s)\<rparr>)
       s (map fst (current_subfolder_active_annotations s))"

definition action_clear_current_annotations :: "env \<Rightarrow> bool \<Rightarrow> app \<Rightarrow> app" where
  "action_clear_current_annotations e confirmed s =
     (if confirmed
      then (load_subfolder_by_index e (current_subfolder_index s) (clear_lists s))
             \<lparr>unsaved_changes := True\<rparr>
      else s)"

subsection \<open>Annotation types\<close>

definition rebuild_annotation_widgets :: "app \<Rightarrow> app" where
  "rebuild_annotation_widgets s =
     (let display_types = filter (\<lambda>t. t \<noteq> ''other'') (annotation_types s);
          s1 = s\<lparr>combo_values := display_types\<rparr>
      in if display_types \<noteq> [] \<and> annotation_type_var s1 = []
         then s1\<lparr>annotation_type_var := hd display_types\<rparr>
         else s1)"

text \<open>
  The combobox is read-only: the user can pick one of its values and nothing else. Tk
  stores the pick in \<^verbatim>\<open>annotation_type_var\<close> and then calls the handler.
\<close>

definition on_annotation_type_select :: "string \<Rightarrow> app \<Rightarrow> app" where
  "on_annotation_type_select v s =
     (if v \<in> set (combo_values s)
      then s\<lparr>annotation_type_var := v, unsaved_changes := True\<rparr>
      else s)"

fun index_of :: "'a \<Rightarrow> 'a list \<Rightarrow> nat option" where
  "index_of x [] = None"
| "index_of x (y # ys) =
     (if x = y then Some 0 else (case index_of x ys of None \<Rightarrow> None | Some i \<Rightarrow> Some (Suc i)))"

text \<open>
  \<^verbatim>\<open>_add_new_annotation_type\<close>; \<open>answer\<close> is what \<^verbatim>\<open>askstring\<close> returns
  (\<open>None\<close> when the dialog is cancelled).
\<close>

definition add_new_annotation_type :: "env \<Rightarrow> string option \<Rightarrow> app \<Rightarrow> app" where
  "add_new_annotation_type e answer s =
     (case answer of
        None \<Rightarrow> s
      | Some typed \<Rightarrow>
          if typed = [] \<or> strip typed = [] then s
          else
            (let new_type = strip (lower typed) in
             if new_type \<in> set (annotation_types s) then
               s\<lparr>annotation_type_var := new_type,
                 dialogs := dialogs s @
                   [ShowInfo ''The type already exists. It has been selected for you.'']\<rparr>
             else
               (let types' =
                      (case index_of ''other'' (annotation_types s) of
                         Some other_index \<Rightarrow>
                           take other_index (annotation_types s) @ [new_type] @
                           drop other_index (annotation_types s)
                       | None \<Rightarrow> annotation_types s @ [new_type]);
                    s1 = s\<lparr>annotation_types := types'\<rparr>;
                    s2 = save_annotation_types e s1;
                    s3 = rebuild_annotation_widgets s2
                in s3\<lparr>annotation_type_var := new_type, unsaved_changes := True\<rparr>)))"

definition default_types :: "string list" where
  "default_types = [''paragraphs'', ''tables'', ''images'', ''headings'', ''other'']"

definition load_annotation_types :: "env \<Rightarrow> app \<Rightarrow> app" where
  "load_annotation_types e s =
     (case types_file (files s) of
        Parsed (Types_list types) \<Rightarrow> s\<lparr>annotation_types := types\<rparr>
      | Unparsable \<Rightarrow> s\<lparr>annotation_types := default_types\<rparr>
      | _ \<Rightarrow> save_annotation_types e (s\<lparr>annotation_types := default_types\<rparr>))"

subsection \<open>Start of a session\<close>

definition read_json_file :: "'a json_file \<Rightarrow> 'a \<Rightarrow> 'a" where
  "read_json_file f default_val = (case f of Parsed v \<Rightarrow> v | _ \<Rightarrow> default_val)"

text \<open>
  \<^verbatim>\<open>json.load\<close> builds new objects: every list of boxes read from the file gets an
  address of its own. A repeated key overwrites the earlier one, as in a \<^verbatim>\<open>dict\<close>.
\<close>

fun thaw_images ::
  "(string \<times> bbox list) list \<Rightarrow> (string \<times> addr) list \<times> (addr \<Rightarrow> bbox list) \<times> addr
     \<Rightarrow> (string \<times> addr) list \<times> (addr \<Rightarrow> bbox list) \<times> addr" where
  "thaw_images [] acc = acc"
| "thaw_images ((k, bs) # r) (d, h, n) = thaw_images r (AList.update k n d, h(n := bs), Suc n)"

fun thaw ::
  "annotations_json \<Rightarrow> (string \<times> subfolder_data) list \<times> (addr \<Rightarrow> bbox list) \<times> addr
     \<Rightarrow> (string \<times> subfolder_data) list \<times> (addr \<Rightarrow> bbox list) \<times> addr" where
  "thaw [] acc = acc"
| "thaw ((g, t, imgs) # r) (st, h, n) =
     (case thaw_images imgs ([], h, n) of
        (d, h', n') \<Rightarrow>
          thaw r (AList.update g \<lparr>type_of_annotation = t, annotations = d\<rparr> st, h', n'))"

definition load_annotations_from_file :: "app \<Rightarrow> app" where
  "load_annotations_from_file s =
     (case thaw (read_json_file (annotations_file (files s)) []) ([], heap s, next_addr s) of
        (st, h, n) \<Rightarrow> s\<lparr>annotations_data := st, heap := h, next_addr := n\<rparr>)"

definition load_progress_from_file :: "app \<Rightarrow> app" where
  "load_progress_from_file s =
     s\<lparr>progress_data := read_json_file (progress_file (files s)) (Some [])\<rparr>"

definition discover_subfolders :: "env \<Rightarrow> app \<Rightarrow> app" where
  "discover_subfolders e s =
     (case main_listing e of
        Some ds \<Rightarrow> s\<lparr>subfolders := sort ds\<rparr>
      | None \<Rightarrow> s\<lparr>dialogs := dialogs s @ [ShowError ''Could not read subfolders'']\<rparr>)"

text \<open>
  The loop \<^verbatim>\<open>for i, folder in enumerate(self.subfolders)\<close> with its \<^verbatim>\<open>break\<close>, and
  the \<^verbatim>\<open>else\<close> branch of the loop.
\<close>

fun first_not_completed :: "string list \<Rightarrow> string list \<Rightarrow> nat \<Rightarrow> nat option" where
  "first_not_completed [] completed i = None"
| "first_not_completed (folder # rest) completed i =
     (if folder \<notin> set completed then Some i else first_not_completed rest completed (Suc i))"

definition start_index_of :: "string list \<Rightarrow> string list \<Rightarrow> int" where
  "start_index_of subs completed =
     (case first_not_completed subs completed 0 of
        Some i \<Rightarrow> int i
      | None \<Rightarrow> max 0 (int (length subs) - 1))"

definition load_initial_state :: "env \<Rightarrow> app \<Rightarrow> app" where
  "load_initial_state e s =
     (if chosen_folder e = [] then s\<lparr>root_destroyed := True\<rparr>
      else
        (let s1 = discover_subfolders e s in
         if subfolders s1 = [] then
           s1\<lparr>dialogs := dialogs s1 @ [ShowInfo ''No subfolders found.'']\<rparr>
         else
           (let s2 = load_annotations_from_file s1;
                s3 = load_progress_from_file s2;
                completed = (case progress_data s3 of None \<Rightarrow> [] | Some cs \<Rightarrow> cs);
                start_index = start_index_of (subfolders s3) completed
            in load_subfolder_by_index e start_index s3)))"

definition no_drawing :: drawing_state where
  "no_drawing = \<lparr>image_name = None, start_x = 0, start_y = 0, active_rect_id = False\<rparr>"

definition new_app :: "disk \<Rightarrow> app" where
  "new_app d =
     \<lparr>subfolders = [], current_subfolder_index = - 1, current_subfolder_name = [],
      annotations_data = [], progress_data = None,
      current_image_names = replicate 4 None,
      annotation_type_var = [], annotation_types = [], combo_values = [],
      current_subfolder_active_annotations = [],
      canvas_drawing_state = (\<lambda>c. no_drawing),
      undo_stack = [], unsaved_changes = False,
      heap = (\<lambda>a. []), next_addr = 0,
      files = d, dialogs = [], root_destroyed = False\<rparr>"

text \<open>\<^verbatim>\<open>AnnotationApp.__init__\<close>, started on the disk \<open>d\<close>.\<close>

definition init :: "env \<Rightarrow> disk \<Rightarrow> app" where
  "init e d = load_initial_state e (rebuild_annotation_widgets (load_annotation_types e (new_app d)))"

section \<open>draw\_boxes.py\<close>

text \<open>
  The older variant has the same fields without the annotation types and the undo stack;
  its store maps a subfolder to the dictionary of its images directly, so the records of
  \<open>annotations_data\<close> carry no type here.
\<close>

definition clear_display_and_current_data_v1 :: "app \<Rightarrow> app" where
  "clear_display_and_current_data_v1 s =
     s\<lparr>current_image_names := replicate 4 None,
       canvas_drawing_state := (\<lambda>c. if c < 4 then no_drawing else canvas_drawing_state s c),
       current_subfolder_active_annotations := [],
       unsaved_changes := False\<rparr>"

definition is_image_file_v1 :: "string \<Rightarrow> bool" where
  "is_image_file_v1 f =
     (endswith (lower f) ''.png'' \<or> endswith (lower f) ''.jpg'' \<or> endswith (lower f) ''.jpeg''
      \<or> endswith (lower f) ''.bmp'' \<or> endswith (lower f) ''.gif'')"

definition load_slot_v1 :: "env \<Rightarrow> string \<Rightarrow> string list \<Rightarrow> (string \<times> addr) list \<Rightarrow> app \<Rightarrow> nat \<Rightarrow> app" where
  "load_slot_v1 e name image_files ann s i =
     (let img_name = image_files ! i in
      if image_ok e name img_name then
        s\<lparr>current_image_names := (current_image_names s)[i := Some img_name],
          canvas_drawing_state := (canvas_drawing_state s)
            (i := (canvas_drawing_state s i)\<lparr>image_name := Some img_name\<rparr>),
          current_subfolder_active_annotations :=
            AList.update img_name (next_addr s) (current_subfolder_active_annotations s),
          heap := (heap s)(next_addr s := boxes_of (heap s) ann img_name),
          next_addr := Suc (next_addr s)\<rparr>
      else s\<lparr>current_image_names := (current_image_names s)[i := None]\<rparr>)"

definition no_image_slot_v1 :: "app \<Rightarrow> nat \<Rightarrow> app" where
  "no_image_slot_v1 s i =
     (if current_image_names s ! i = None
      then s\<lparr>canvas_drawing_state := (canvas_drawing_state s)
               (i := (canvas_drawing_state s i)\<lparr>image_name := None\<rparr>)\<rparr>
      else s)"

definition load_subfolder_by_index_v1 :: "env \<Rightarrow> int \<Rightarrow> app \<Rightarrow> app" where
  "load_subfolder_by_index_v1 e subfolder_idx s =
     (if subfolders s = [] then s
      else if \<not> (0 \<le> subfolder_idx \<and> subfolder_idx < int (length (subfolders s))) then
        (if subfolder_idx \<ge> int (length (subfolders s))
         then s\<lparr>dialogs := dialogs s @ [ShowInfo ''You have reached the end of the subfolders.'']\<rparr>
         else s\<lparr>dialogs := dialogs s @ [ShowInfo ''You are at the beginning of the subfolders.'']\<rparr>)
      else
        (let s1 = clear_display_and_current_data_v1 s;
             name = subfolders s ! nat subfolder_idx;
             s2 = s1\<lparr>current_subfolder_index := subfolder_idx, current_subfolder_name := name\<rparr>;
             image_files = sort (filter is_image_file_v1 (listdir e name));
             ann = (case map_of (annotations_data s2) name of None \<Rightarrow> [] | Some d \<Rightarrow> annotations d);
             s3 = foldl (load_slot_v1 e name image_files ann) s2 [0 ..< min (length image_files) 4];
             s4 = foldl no_image_slot_v1 s3 [length image_files ..< 4]
         in s4\<lparr>unsaved_changes := False\<rparr>))"

definition on_canvas_press_v1 :: "nat \<Rightarrow> int \<Rightarrow> int \<Rightarrow> app \<Rightarrow> app" where
  "on_canvas_press_v1 c x y s =
     (let state = canvas_drawing_state s c in
      if image_name state = None then s
      else s\<lparr>canvas_drawing_state := (canvas_drawing_state s)
               (c := state\<lparr>start_x := x, start_y := y, active_rect_id := True\<rparr>)\<rparr>)"

definition on_canvas_release_v1 :: "nat \<Rightarrow> int \<Rightarrow> int \<Rightarrow> app \<Rightarrow> app" where
  "on_canvas_release_v1 c end_x end_y s =
     (let state = canvas_drawing_state s c in
      case image_name state of
        None \<Rightarrow> s
      | Some current_image_name \<Rightarrow>
          if \<not> active_rect_id state then s
          else
            (let s1 = s\<lparr>canvas_drawing_state := (canvas_drawing_state s)
                          (c := state\<lparr>active_rect_id := False\<rparr>)\<rparr>;
                 x1 = min (start_x state) end_x;
                 y1 = min (start_y state) end_y;
                 x2 = max (start_x state) end_x;
                 y2 = max (start_y state) end_y
             in if \<bar>x1 - x2\<bar> < 5 \<or> \<bar>y1 - y2\<bar> < 5 then s1
                else
                  (let img_w = fst IMAGE_DISPLAY_SIZE; img_h = snd IMAGE_DISPLAY_SIZE;
                       x1' = max 0 (min x1 (img_w - 1));
                       y1' = max 0 (min y1 (img_h - 1));
                       x2' = max 0 (min x2 (img_w - 1));
                       y2' = max 0 (min y2 (img_h - 1))
                   in if \<bar>x1' - x2'\<bar> < 5 \<or> \<bar>y1' - y2'\<bar> < 5 then s1
                      else (append_bbox current_image_name [x1', y1', x2', y2'] s1)
                             \<lparr>unsaved_changes := True\<rparr>)))"

definition action_previous_subfolder_v1 :: "env \<Rightarrow> bool \<Rightarrow> app \<Rightarrow> app" where
  "action_previous_subfolder_v1 e proceed_without_saving s =
     (if unsaved_changes s \<and> \<not> proceed_without_saving then s
      else if current_subfolder_index s > 0
        then load_subfolder_by_index_v1 e (current_subfolder_index s - 1) s
        else s\<lparr>dialogs := dialogs s @ [ShowInfo ''You are at the first subfolder.'']\<rparr>)"

section \<open>Concrete sessions\<close>

text \<open>
  A folder with the single group \<open>A\<close> holding \<open>a.png\<close>, on a disk without stores; the
  same folder where every write breaks off with an I/O error; and a session that draws
  one box on the first canvas after start.
\<close>

definition one_group_env :: env where
  "one_group_env =
     \<lparr>chosen_folder = ''/data'', main_listing = Some [''A''],
      listdir = (\<lambda>name. [''a.png'']), image_ok = (\<lambda>name img. True),
      write_outcome = (\<lambda>path. Written)\<rparr>"

definition unwritable_env :: env where
  "unwritable_env = one_group_env\<lparr>write_outcome := (\<lambda>path. Write_error)\<rparr>"

definition empty_disk :: disk where
  "empty_disk = \<lparr>annotations_file = Missing, progress_file = Missing, types_file = Missing\<rparr>"

definition draw :: "nat \<Rightarrow> int \<times> int \<Rightarrow> int \<times> int \<Rightarrow> app \<Rightarrow> app" where
  "draw c p0 p1 s = on_canvas_release c (fst p1) (snd p1) (on_canvas_press c (fst p0) (snd p0) s)"

definition one_box_session :: "env \<Rightarrow> app" where
  "one_box_session e = draw 0 (10, 10) (100, 100) (init e empty_disk)"

section \<open>Notions used by the statements\<close>

text \<open>
  The boxes of an image in the working annotations of the active group, and the boxes of
  an image recorded for a group in the in-memory annotation store.
\<close>

definition slot_boxes :: "app \<Rightarrow> string \<Rightarrow> bbox list" where
  "slot_boxes s img = boxes_of (heap s) (current_subfolder_active_annotations s) img"

definition stored_boxes :: "app \<Rightarrow> string \<Rightarrow> string \<Rightarrow> bbox list" where
  "stored_boxes s g img =
     (case map_of (annotations_data s) g of
        None \<Rightarrow> []
      | Some d \<Rightarrow> boxes_of (heap s) (annotations d) img)"

text \<open>The canonical form of a box, section 3 of the specification.\<close>

definition canonical :: "bbox \<Rightarrow> bool" where
  "canonical b =
     (length b = 4 \<and> b ! 0 \<le> b ! 2 \<and> b ! 1 \<le> b ! 3 \<and> 5 \<le> b ! 2 - b ! 0 \<and> 5 \<le> b ! 3 - b ! 1)"

text \<open>
  The Coordinate Mapper in the words of section 4.1 of the specification: the box
  \<open>[min x, min y, max x, max y]\<close> of the press and the release, each coordinate clamped to
  \<open>[0, dim - 1]\<close>, rejected when an extent is below 5 before or after clamping.
\<close>

definition clamp :: "int \<Rightarrow> int \<Rightarrow> int" where
  "clamp dim v = max 0 (min v (dim - 1))"

definition coordinate_mapper :: "int \<times> int \<Rightarrow> int \<times> int \<Rightarrow> int \<times> int \<Rightarrow> bbox option" where
  "coordinate_mapper dims p0 p1 =
     (let x1 = min (fst p0) (fst p1); y1 = min (snd p0) (snd p1);
          x2 = max (fst p0) (fst p1); y2 = max (snd p0) (snd p1)
      in if x2 - x1 < 5 \<or> y2 - y1 < 5 then None
         else
           (let cx1 = clamp (fst dims) x1; cy1 = clamp (snd dims) y1;
                cx2 = clamp (fst dims) x2; cy2 = clamp (snd dims) y2
            in if cx2 - cx1 < 5 \<or> cy2 - cy1 < 5 then None
               else Some [cx1, cy1, cx2, cy2]))"

text \<open>A press and a release on one canvas in the older variant; runs of draws and of undos.\<close>

definition draw_v1 :: "nat \<Rightarrow> int \<times> int \<Rightarrow> int \<times> int \<Rightarrow> app \<Rightarrow> app" where
  "draw_v1 c p0 p1 s =
     on_canvas_release_v1 c (fst p1) (snd p1) (on_canvas_press_v1 c (fst p0) (snd p0) s)"

definition draws :: "(nat \<times> (int \<times> int) \<times> (int \<times> int)) list \<Rightarrow> app \<Rightarrow> app" where
  "draws ds s = foldl (\<lambda>s (c, p0, p1). draw c p0 p1 s) s ds"

definition undos :: "nat \<Rightarrow> app \<Rightarrow> app" where
  "undos k s = (action_undo_last_bbox ^^ k) s"

text \<open>
  The lists of the working annotations are separate objects, all allocated already: no
  two images share an address and every address lies below \<open>next_addr\<close>.
\<close>

definition lists_apart :: "app \<Rightarrow> bool" where
  "lists_apart s =
     (distinct (map snd (current_subfolder_active_annotations s))
      \<and> list_all (\<lambda>a. a < next_addr s) (map snd (current_subfolder_active_annotations s)))"

text \<open>Undo, seen on the boxes per image and the undo stack alone.\<close>

definition undo_view ::
  "(string \<Rightarrow> bbox list) \<times> (nat \<times> string) list \<Rightarrow> (string \<Rightarrow> bbox list) \<times> (nat \<times> string) list" where
  "undo_view v =
     (if snd v = [] then v
      else ((fst v)(snd (last (snd v)) := butlast (fst v (snd (last (snd v))))), butlast (snd v)))"

text \<open>
  A group with two images, three draws across its two canvases, and the older variant
  after loading the single group \<open>A\<close>.
\<close>

definition two_image_env :: env where
  "two_image_env = one_group_env\<lparr>listdir := (\<lambda>name. [''b.png'', ''a.png''])\<rparr>"

definition three_draws :: "(nat \<times> (int \<times> int) \<times> (int \<times> int)) list" where
  "three_draws = [(0, (10, 10), (100, 100)), (1, (20, 20), (200, 200)), (0, (30, 30), (300, 300))]"

definition one_group_session_v1 :: app where
  "one_group_session_v1 =
     load_subfolder_by_index_v1 one_group_env 0 ((new_app empty_disk)\<lparr>subfolders := [''A'']\<rparr>)"

text \<open>
  Three groups listed out of order with \<open>A\<close> marked completed on the disk, as in the
  scenario of section 8 of the specification.
\<close>

definition readonly_env :: env where
  "readonly_env = one_group_env\<lparr>write_outcome := (\<lambda>path. Open_error)\<rparr>"

definition types_disk :: disk where
  "types_disk = empty_disk\<lparr>types_file := Parsed (Types_list default_types)\<rparr>"

text \<open>
  Two groups, \<open>A\<close> with two images and \<open>B\<close> with one. After save-and-next from \<open>A\<close> the
  second canvas shows no image, and a press and a release on it are handled all the same.
\<close>

definition two_group_env :: env where
  "two_group_env =
     one_group_env\<lparr>main_listing := Some [''A'', ''B''],
       listdir := (\<lambda>name. if name = ''A'' then [''a1.png'', ''a2.png''] else [''b1.png''])\<rparr>"

definition stale_canvas_session :: app where
  "stale_canvas_session =
     draw 1 (10, 10) (100, 100) (action_save_and_next two_group_env (init two_group_env empty_disk))"

definition abc_env :: env where
  "abc_env = one_group_env\<lparr>main_listing := Some [''C'', ''A'', ''B'']\<rparr>"

definition progress_A_disk :: disk where
  "progress_A_disk = empty_disk\<lparr>progress_file := Parsed (Some [''A''])\<rparr>"

text \<open>
  While a subfolder is being loaded from the store record \<open>ann\<close>: the heap below \<open>n0\<close> is
  still \<open>h0\<close>, and every working list is a new object holding the boxes that \<open>ann\<close>
  records for its image.
\<close>

definition copies_of :: "addr \<Rightarrow> (addr \<Rightarrow> bbox list) \<Rightarrow> (string \<times> addr) list \<Rightarrow> app \<Rightarrow> bool" where
  "copies_of n0 h0 ann s =
     (n0 \<le> next_addr s
      \<and> (\<forall>a < n0. heap s a = h0 a)
      \<and> list_all (\<lambda>(k, a). n0 \<le> a \<and> a < next_addr s \<and> heap s a = boxes_of h0 ann k)
           (current_subfolder_active_annotations s))"

text \<open>
  The user's actions as data, and a session as a run of actions from the start. An
  action is one event handler of the newer variant with the answers the user gives.
\<close>

datatype action =
    Press nat int int
  | Release nat int int
  | Undo
  | Save
  | SaveNext
  | Previous bool
  | Clear bool
  | AddType "string option"
  | SelectType string

fun step :: "env \<Rightarrow> app \<Rightarrow> action \<Rightarrow> app" where
  "step e s (Press c x y) = on_canvas_press c x y s"
| "step e s (Release c x y) = on_canvas_release c x y s"
| "step e s Undo = action_undo_last_bbox s"
| "step e s Save = snd (action_save_annotations e False s)"
| "step e s SaveNext = action_save_and_next e s"
| "step e s (Previous go) = action_previous_subfolder e go s"
| "step e s (Clear confirmed) = action_clear_current_annotations e confirmed s"
| "step e s (AddType answer) = add_new_annotation_type e answer s"
| "step e s (SelectType v) = on_annotation_type_select v s"

definition run :: "env \<Rightarrow> action list \<Rightarrow> app \<Rightarrow> app" where
  "run e acts s = foldl (step e) s acts"

fun is_drawing :: "action \<Rightarrow> bool" where
  "is_drawing (Press c x y) = True"
| "is_drawing (Release c x y) = True"
| "is_drawing Undo = True"
| "is_drawing a = False"

text \<open>
  What holds in every state a session can reach: an active group is the one the index
  names, and every list held by the working annotations or by the store is allocated.
\<close>

definition store_allocated :: "app \<Rightarrow> bool" where
  "store_allocated s =
     list_all (\<lambda>(g, d). list_all (\<lambda>a. a < next_addr s) (map snd (annotations d)))
       (annotations_data s)"

definition well_formed :: "app \<Rightarrow> bool" where
  "well_formed s =
     ((current_subfolder_name s \<noteq> [] \<longrightarrow>
         0 \<le> current_subfolder_index s
         \<and> current_subfolder_index s < int (length (subfolders s))
         \<and> subfolders s ! nat (current_subfolder_index s) = current_subfolder_name s)
      \<and> list_all (\<lambda>a. a < next_addr s) (map snd (current_subfolder_active_annotations s))
      \<and> store_allocated s)"

text \<open>
  The heap below \<open>n0\<close> is still \<open>h0\<close> and the working lists all lie at or above \<open>n0\<close>:
  drawing and undoing cannot touch a list below \<open>n0\<close>.
\<close>

definition out_of_reach :: "addr \<Rightarrow> (addr \<Rightarrow> bbox list) \<Rightarrow> app \<Rightarrow> bool" where
  "out_of_reach n0 h0 s =
     (n0 \<le> next_addr s
      \<and> (\<forall>a < n0. heap s a = h0 a)
      \<and> list_all (\<lambda>a. n0 \<le> a) (map snd (current_subfolder_active_annotations s)))"

section \<open>Frame lemmas: what loading, writing and saving leave alone\<close>


lemma load_slot_keeps:
  "dialogs (load_slot e n fs ann s i) = dialogs s"
  "undo_stack (load_slot e n fs ann s i) = undo_stack s"
  "unsaved_changes (load_slot e n fs ann s i) = unsaved_changes s"
  "subfolders (load_slot e n fs ann s i) = subfolders s"
  "current_subfolder_index (load_slot e n fs ann s i) = current_subfolder_index s"
  "current_subfolder_name (load_slot e n fs ann s i) = current_subfolder_name s"
  "annotations_data (load_slot e n fs ann s i) = annotations_data s"
  "progress_data (load_slot e n fs ann s i) = progress_data s"
  "annotation_type_var (load_slot e n fs ann s i) = annotation_type_var s"
  "annotation_types (load_slot e n fs ann s i) = annotation_types s"
  "combo_values (load_slot e n fs ann s i) = combo_values s"
  "files (load_slot e n fs ann s i) = files s"
  "root_destroyed (load_slot e n fs ann s i) = root_destroyed s"
  by (simp_all add: load_slot_def Let_def)

lemma load_slots_keep:
  "dialogs (foldl (load_slot e n fs ann) s is) = dialogs s"
  "undo_stack (foldl (load_slot e n fs ann) s is) = undo_stack s"
  "unsaved_changes (foldl (load_slot e n fs ann) s is) = unsaved_changes s"
  "subfolders (foldl (load_slot e n fs ann) s is) = subfolders s"
  "current_subfolder_index (foldl (load_slot e n fs ann) s is) = current_subfolder_index s"
  "current_subfolder_name (foldl (load_slot e n fs ann) s is) = current_subfolder_name s"
  "annotations_data (foldl (load_slot e n fs ann) s is) = annotations_data s"
  "progress_data (foldl (load_slot e n fs ann) s is) = progress_data s"
  "annotation_type_var (foldl (load_slot e n fs ann) s is) = annotation_type_var s"
  "annotation_types (foldl (load_slot e n fs ann) s is) = annotation_types s"
  "combo_values (foldl (load_slot e n fs ann) s is) = combo_values s"
  "files (foldl (load_slot e n fs ann) s is) = files s"
  "root_destroyed (foldl (load_slot e n fs ann) s is) = root_destroyed s"
  by (induction "is" arbitrary: s; simp add: load_slot_keeps)+

lemma load_out_of_range:
  "\<not> (0 \<le> idx \<and> idx < int (length (subfolders s))) \<Longrightarrow>
   load_subfolder_by_index e idx s =
     s\<lparr>dialogs := dialogs s @ [ShowInfo ''You have reached the beginning or end of the subfolders.'']\<rparr>"
  by (simp add: load_subfolder_by_index_def)

lemma load_in_range:
  assumes "0 \<le> idx" "idx < int (length (subfolders s))"
  shows "undo_stack (load_subfolder_by_index e idx s) = []"
    and "unsaved_changes (load_subfolder_by_index e idx s) = False"
    and "current_subfolder_index (load_subfolder_by_index e idx s) = idx"
    and "current_subfolder_name (load_subfolder_by_index e idx s) = subfolders s ! nat idx"
    and "dialogs (load_subfolder_by_index e idx s) = dialogs s"
    and "subfolders (load_subfolder_by_index e idx s) = subfolders s"
    and "annotations_data (load_subfolder_by_index e idx s) = annotations_data s"
    and "progress_data (load_subfolder_by_index e idx s) = progress_data s"
    and "files (load_subfolder_by_index e idx s) = files s"
  using assms
  by (simp_all add: load_subfolder_by_index_def Let_def load_slots_keep clear_display_and_current_data_def del: foldl_Cons)

lemma write_json_file_keeps:
  "undo_stack (write_json_file e p put s) = undo_stack s"
  "unsaved_changes (write_json_file e p put s) = unsaved_changes s"
  "subfolders (write_json_file e p put s) = subfolders s"
  "current_subfolder_index (write_json_file e p put s) = current_subfolder_index s"
  "current_subfolder_name (write_json_file e p put s) = current_subfolder_name s"
  "annotations_data (write_json_file e p put s) = annotations_data s"
  "progress_data (write_json_file e p put s) = progress_data s"
  "annotation_type_var (write_json_file e p put s) = annotation_type_var s"
  "annotation_types (write_json_file e p put s) = annotation_types s"
  "combo_values (write_json_file e p put s) = combo_values s"
  "current_subfolder_active_annotations (write_json_file e p put s) = current_subfolder_active_annotations s"
  "canvas_drawing_state (write_json_file e p put s) = canvas_drawing_state s"
  "current_image_names (write_json_file e p put s) = current_image_names s"
  "heap (write_json_file e p put s) = heap s"
  "next_addr (write_json_file e p put s) = next_addr s"
  "root_destroyed (write_json_file e p put s) = root_destroyed s"
  by (simp_all add: write_json_file_def split: write_result.splits)

lemma write_json_file_dialogs:
  "dialogs (write_json_file e p put s) =
     (if write_fails e p then dialogs s @ [ShowError (''Could not save to '' @ p)] else dialogs s)"
  by (simp add: write_json_file_def write_fails_def split: write_result.splits)

lemma write_json_file_files:
  "files (write_json_file e p put s) =
     (case write_outcome e p of
        Written \<Rightarrow> put (files s)
      | Open_error \<Rightarrow> files s
      | Write_error \<Rightarrow> truncate_file p (files s))"
  by (simp add: write_json_file_def split: write_result.splits)

lemma truncate_file_others:
  "progress_file (truncate_file ANNOTATION_TYPES_FILE d) = progress_file d"
  "annotations_file (truncate_file ANNOTATION_TYPES_FILE d) = annotations_file d"
  by (simp_all add: truncate_file_def ANNOTATION_TYPES_FILE_def ANNOTATIONS_FILE_def PROGRESS_FILE_def)

lemma save_fst: "fst (action_save_annotations e c s) = (current_subfolder_name s \<noteq> [])"
  by (simp add: action_save_annotations_def Let_def)

lemma save_reload:
  "current_subfolder_name s \<noteq> [] \<Longrightarrow>
   snd (action_save_annotations e False s) =
     load_subfolder_by_index e (current_subfolder_index s) (snd (action_save_annotations e True s))"
  by (simp add: action_save_annotations_def Let_def write_json_file_keeps)

lemma save_next_fields:
  assumes "current_subfolder_name s \<noteq> []"
  shows "unsaved_changes (snd (action_save_annotations e True s)) = False"
    and "undo_stack (snd (action_save_annotations e True s)) = undo_stack s"
    and "subfolders (snd (action_save_annotations e True s)) = subfolders s"
    and "current_subfolder_index (snd (action_save_annotations e True s)) = current_subfolder_index s"
    and "current_subfolder_name (snd (action_save_annotations e True s)) = current_subfolder_name s"
    and "annotation_type_var (snd (action_save_annotations e True s)) = annotation_type_var s"
    and "combo_values (snd (action_save_annotations e True s)) = combo_values s"
    and "current_subfolder_active_annotations (snd (action_save_annotations e True s)) =
           current_subfolder_active_annotations s"
    and "heap (snd (action_save_annotations e True s)) = heap s"
    and "next_addr (snd (action_save_annotations e True s)) = next_addr s"
    and "annotations_data (snd (action_save_annotations e True s)) =
           AList.update (current_subfolder_name s)
             \<lparr>type_of_annotation = Some (annotation_type_var s),
              annotations = current_subfolder_active_annotations s\<rparr> (annotations_data s)"
  using assms
  by (simp_all add: action_save_annotations_def Let_def write_json_file_keeps)

lemma save_next_dialogs:
  assumes "current_subfolder_name s \<noteq> []"
  shows "dialogs (snd (action_save_annotations e True s)) =
           dialogs s
           @ (if write_fails e ANNOTATIONS_FILE then [ShowError (''Could not save to '' @ ANNOTATIONS_FILE)] else [])
           @ (if write_fails e PROGRESS_FILE then [ShowError (''Could not save to '' @ PROGRESS_FILE)] else [])"
  using assms
  by (simp add: action_save_annotations_def Let_def write_json_file_keeps write_json_file_dialogs)

lemma load_dialogs_mono: "set (dialogs s) \<subseteq> set (dialogs (load_subfolder_by_index e idx s))"
  by (cases "0 \<le> idx \<and> idx < int (length (subfolders s))")
     (auto simp: load_in_range load_out_of_range)

lemma load_unsaved:
  "\<not> unsaved_changes s \<Longrightarrow> \<not> unsaved_changes (load_subfolder_by_index e idx s)"
  by (cases "0 \<le> idx \<and> idx < int (length (subfolders s))")
     (auto simp: load_in_range load_out_of_range)

lemma save_and_next_eq:
  "action_save_and_next e s =
     (if current_subfolder_name s \<noteq> []
      then load_subfolder_by_index e (current_subfolder_index s + 1) (snd (action_save_annotations e True s))
      else s)"
proof (cases "current_subfolder_name s = []")
  case True
  then show ?thesis by (simp add: action_save_and_next_def action_save_annotations_def)
next
  case False
  then have "action_save_annotations e True s = (True, snd (action_save_annotations e True s))"
    by (simp add: action_save_annotations_def Let_def)
  then have "action_save_and_next e s =
      load_subfolder_by_index e (current_subfolder_index (snd (action_save_annotations e True s)) + 1)
        (snd (action_save_annotations e True s))"
    unfolding action_save_and_next_def by (metis (mono_tags, lifting) case_prod_conv bool.simps(3) old.bool.simps(3))
  with False show ?thesis by (simp add: save_next_fields)
qed


section \<open>Saving when the disk refuses the write\<close>

text \<open>
  Claim C1, as amended. The claim says that a save whose file write raises an I/O error is
  reported as failed and leaves the dirty flag set. \<^verbatim>\<open>_write_json_file\<close> catches the
  error and only shows a message box, so \<^verbatim>\<open>_action_save_annotations\<close> carries on:
  whenever a subfolder is loaded, the save returns \<open>True\<close> and the dirty flag is cleared,
  also when a write fails; the failure shows as an error box naming the file.
\<close>

theorem save_with_failing_write:
  assumes "current_subfolder_name s \<noteq> []"
  shows "fst (action_save_annotations e called_from_next s)
       \<and> \<not> unsaved_changes (snd (action_save_annotations e called_from_next s))
       \<and> (write_fails e ANNOTATIONS_FILE \<longrightarrow>
            ShowError (''Could not save to '' @ ANNOTATIONS_FILE)
              \<in> set (dialogs (snd (action_save_annotations e called_from_next s))))
       \<and> (write_fails e PROGRESS_FILE \<longrightarrow>
            ShowError (''Could not save to '' @ PROGRESS_FILE)
              \<in> set (dialogs (snd (action_save_annotations e called_from_next s))))"
proof -
  let ?t = "snd (action_save_annotations e True s)"
  have d: "write_fails e ANNOTATIONS_FILE \<longrightarrow>
             ShowError (''Could not save to '' @ ANNOTATIONS_FILE) \<in> set (dialogs ?t)"
          "write_fails e PROGRESS_FILE \<longrightarrow>
             ShowError (''Could not save to '' @ PROGRESS_FILE) \<in> set (dialogs ?t)"
    using assms by (simp_all add: save_next_dialogs)
  have u: "\<not> unsaved_changes ?t" using assms by (simp add: save_next_fields)
  show ?thesis
  proof (cases called_from_next)
    case True
    with d u assms show ?thesis by (simp add: save_fst)
  next
    case False
    let ?r = "load_subfolder_by_index e (current_subfolder_index s) ?t"
    have r: "snd (action_save_annotations e called_from_next s) = ?r"
      using False assms by (simp add: save_reload)
    from d u load_dialogs_mono[of ?t e "current_subfolder_index s"] load_unsaved[OF u] assms
    show ?thesis unfolding r by (auto simp: save_fst)
  qed
qed

theorem save_with_failing_write_witness:
  "current_subfolder_name (one_box_session unwritable_env) \<noteq> []
   \<and> write_fails unwritable_env ANNOTATIONS_FILE
   \<and> fst (action_save_annotations unwritable_env True (one_box_session unwritable_env))
   \<and> ShowError (''Could not save to '' @ ANNOTATIONS_FILE)
        \<in> set (dialogs (snd (action_save_annotations unwritable_env True (one_box_session unwritable_env))))"
proof -
  have h: "current_subfolder_name (one_box_session unwritable_env) \<noteq> []" by code_simp
  have w: "write_fails unwritable_env ANNOTATIONS_FILE" by code_simp
  from save_with_failing_write [OF h, of unwritable_env True] h w show ?thesis by blast
qed

text \<open>
  The claim as stated fails: the session of one drawn box has unsaved changes, both
  writes fail, and after the save the dirty flag is cleared and the save has returned
  \<open>True\<close>.
\<close>

theorem save_keeps_dirty_flag_counterexample:
  "unsaved_changes (one_box_session unwritable_env)
   \<and> write_fails unwritable_env ANNOTATIONS_FILE
   \<and> write_fails unwritable_env PROGRESS_FILE
   \<and> fst (action_save_annotations unwritable_env False (one_box_session unwritable_env))
   \<and> \<not> unsaved_changes
         (snd (action_save_annotations unwritable_env False (one_box_session unwritable_env)))"
  by code_simp

section \<open>Going back from the first group\<close>

text \<open>
  Claim C9. On the first group (index 0) \<^verbatim>\<open>_action_previous_subfolder\<close> changes
  nothing but the message shown: once the user has agreed to leave unsaved changes (or
  there are none), both variants show their boundary message and every field of the
  session, the index, the boxes, the undo stack and the dirty flag among them, is as
  before; when the user declines, the state is untouched.
\<close>

theorem previous_at_first_group:
  assumes "current_subfolder_index s = 0"
  shows "action_previous_subfolder e go s =
           (if unsaved_changes s \<and> \<not> go then s
            else s\<lparr>dialogs := dialogs s @
                     [ShowInfo ''You have reached the beginning or end of the subfolders.'']\<rparr>)
       \<and> action_previous_subfolder_v1 e go s =
           (if unsaved_changes s \<and> \<not> go then s
            else s\<lparr>dialogs := dialogs s @ [ShowInfo ''You are at the first subfolder.'']\<rparr>)"
  using assms
  by (simp add: action_previous_subfolder_def action_previous_subfolder_v1_def load_out_of_range)

theorem previous_at_first_group_witness:
  "current_subfolder_index (one_box_session one_group_env) = 0
   \<and> unsaved_changes (one_box_session one_group_env)
   \<and> action_previous_subfolder one_group_env True (one_box_session one_group_env) =
       (one_box_session one_group_env)
         \<lparr>dialogs := dialogs (one_box_session one_group_env) @
            [ShowInfo ''You have reached the beginning or end of the subfolders.'']\<rparr>
   \<and> action_previous_subfolder one_group_env False (one_box_session one_group_env) =
       one_box_session one_group_env"
proof -
  have h: "current_subfolder_index (one_box_session one_group_env) = 0" by code_simp
  have u: "unsaved_changes (one_box_session one_group_env)" by code_simp
  from previous_at_first_group [OF h, of one_group_env True]
       previous_at_first_group [OF h, of one_group_env False] h u
  show ?thesis by simp
qed

section \<open>The undo stack after a save\<close>

text \<open>
  Claim C10, as amended. The claim says that the undo stack is empty after every
  successful save, alone or as the first half of save-and-next. A save on its own reloads
  the group, and save-and-next loads the next group, which clears the undo stack; on the
  last group save-and-next finds no next group, \<^verbatim>\<open>_load_subfolder_by_index\<close> only
  shows its boundary message, and the undo stack is kept as it was.
\<close>

theorem undo_stack_after_save:
  assumes "current_subfolder_name s \<noteq> []"
    and "0 \<le> current_subfolder_index s"
    and "current_subfolder_index s < int (length (subfolders s))"
  shows "undo_stack (snd (action_save_annotations e False s)) = []
       \<and> (current_subfolder_index s + 1 < int (length (subfolders s)) \<longrightarrow>
            undo_stack (action_save_and_next e s) = [])
       \<and> (\<not> current_subfolder_index s + 1 < int (length (subfolders s)) \<longrightarrow>
            undo_stack (action_save_and_next e s) = undo_stack s)"
  using assms
  by (simp add: save_reload save_and_next_eq load_in_range load_out_of_range save_next_fields)

theorem undo_stack_after_save_witness:
  "current_subfolder_name (one_box_session one_group_env) \<noteq> []
   \<and> 0 \<le> current_subfolder_index (one_box_session one_group_env)
   \<and> current_subfolder_index (one_box_session one_group_env)
       < int (length (subfolders (one_box_session one_group_env)))
   \<and> undo_stack (one_box_session one_group_env) \<noteq> []
   \<and> undo_stack (snd (action_save_annotations one_group_env False (one_box_session one_group_env))) = []"
proof -
  have h1: "current_subfolder_name (one_box_session one_group_env) \<noteq> []" by code_simp
  have h2: "0 \<le> current_subfolder_index (one_box_session one_group_env)" by code_simp
  have h3: "current_subfolder_index (one_box_session one_group_env)
              < int (length (subfolders (one_box_session one_group_env)))" by code_simp
  have h4: "undo_stack (one_box_session one_group_env) \<noteq> []" by code_simp
  from undo_stack_after_save [OF h1 h2 h3, of one_group_env] h1 h2 h3 h4 show ?thesis by blast
qed

text \<open>
  The claim as stated fails on the last group: the save inside save-and-next succeeds and
  the undo stack still holds the box drawn before it, so undo removes that box afterwards.
\<close>

theorem undo_stack_empty_after_save_counterexample:
  "fst (action_save_annotations one_group_env True (one_box_session one_group_env))
   \<and> undo_stack (action_save_and_next one_group_env (one_box_session one_group_env)) = [(0, ''a.png'')]
   \<and> boxes_of (heap (action_save_and_next one_group_env (one_box_session one_group_env)))
        (current_subfolder_active_annotations
           (action_save_and_next one_group_env (one_box_session one_group_env))) ''a.png''
       = [[10, 10, 100, 100]]
   \<and> boxes_of (heap (action_undo_last_bbox
                      (action_save_and_next one_group_env (one_box_session one_group_env))))
        (current_subfolder_active_annotations
           (action_undo_last_bbox
              (action_save_and_next one_group_env (one_box_session one_group_env)))) ''a.png''
       = []"
  by code_simp

section \<open>Boxes per image under draws and undos\<close>


lemma update_absent: "map_of w k = None \<Longrightarrow> AList.update k v w = w @ [(k, v)]"
  by (induction w) (auto split: if_splits)

lemma map_of_inj:
  "distinct (map snd w) \<Longrightarrow> map_of w k = Some a \<Longrightarrow> map_of w k' = Some a \<Longrightarrow> k = k'"
proof -
  assume d: "distinct (map snd w)" and 1: "map_of w k = Some a" and 2: "map_of w k' = Some a"
  from 1 2 have "(k, a) \<in> set w" "(k', a) \<in> set w" by (auto dest: map_of_SomeD)
  moreover from d have "inj_on snd (set w)" by (simp add: distinct_map)
  ultimately have "(k, a) = (k', a)" by (intro inj_onD[of snd "set w"]) simp_all
  then show ?thesis by simp
qed

lemma map_of_addr_in: "map_of w k = Some a \<Longrightarrow> a \<in> set (map snd w)"
  by (auto dest: map_of_SomeD intro: rev_image_eqI)

lemma update_addrs: "set (map snd (AList.update k v w)) \<subseteq> insert v (set (map snd w))"
  by (induction w) auto

lemma update_distinct:
  "distinct (map snd w) \<Longrightarrow> v \<notin> set (map snd w) \<Longrightarrow> distinct (map snd (AList.update k v w))"
proof (induction w)
  case Nil then show ?case by simp
next
  case (Cons p w)
  have "set (map snd (AList.update k v w)) \<subseteq> insert v (set (map snd w))" by (rule update_addrs)
  with Cons show ?case by (auto split: if_splits)
qed

lemma append_bbox_view:
  assumes "lists_apart s"
  shows "slot_boxes (append_bbox img b s) = (slot_boxes s)(img := slot_boxes s img @ [b])"
    and "lists_apart (append_bbox img b s)"
proof -
  let ?w = "current_subfolder_active_annotations s"
  from assms have d: "distinct (map snd ?w)" and below: "\<forall>a \<in> set (map snd ?w). a < next_addr s"
    by (auto simp: lists_apart_def list_all_iff)
  show "slot_boxes (append_bbox img b s) = (slot_boxes s)(img := slot_boxes s img @ [b])"
  proof (cases "map_of ?w img")
    case None
    have "\<And>k a. map_of ?w k = Some a \<Longrightarrow> a \<noteq> next_addr s"
      using below map_of_addr_in by fastforce
    with None show ?thesis
      by (auto simp: fun_eq_iff slot_boxes_def boxes_of_def append_bbox_def update_conv'
               split: option.splits)
  next
    case (Some a)
    have "\<And>k a'. k \<noteq> img \<Longrightarrow> map_of ?w k = Some a' \<Longrightarrow> a' \<noteq> a"
      using map_of_inj[OF d] Some by blast
    with Some show ?thesis
      by (auto simp: fun_eq_iff slot_boxes_def boxes_of_def append_bbox_def split: option.splits)
  qed
  show "lists_apart (append_bbox img b s)"
  proof (cases "map_of ?w img")
    case None
    from below have "next_addr s \<notin> set (map snd ?w)" by auto
    with None d below show ?thesis
      by (auto simp: lists_apart_def list_all_iff append_bbox_def update_absent)
  next
    case (Some a)
    with assms show ?thesis by (simp add: lists_apart_def append_bbox_def)
  qed
qed

lemma slot_boxes_fun:
  "slot_boxes s = (\<lambda>img. boxes_of (heap s) (current_subfolder_active_annotations s) img)"
  by (rule ext) (simp add: slot_boxes_def)

lemma press_keeps:
  "slot_boxes (on_canvas_press c x y s) = slot_boxes s"
  "undo_stack (on_canvas_press c x y s) = undo_stack s"
  "lists_apart (on_canvas_press c x y s) = lists_apart s"
  by (simp_all add: on_canvas_press_def Let_def slot_boxes_fun lists_apart_def)

lemma release_cases:
  "on_canvas_release c x y s =
     (let state = canvas_drawing_state s c;
          s1 = s\<lparr>canvas_drawing_state := (canvas_drawing_state s)
                   (c := state\<lparr>active_rect_id := False\<rparr>)\<rparr>;
          bbox = [min (start_x state) x, min (start_y state) y,
                  max (start_x state) x, max (start_y state) y]
      in if \<not> active_rect_id state then s
         else if max (start_x state) x - min (start_x state) x < 5
               \<or> max (start_y state) y - min (start_y state) y < 5 then s1
         else (case image_name state of
                 None \<Rightarrow> s1
               | Some img_name \<Rightarrow>
                   (append_bbox img_name bbox s1)
                     \<lparr>undo_stack := undo_stack s @ [(c, img_name)], unsaved_changes := True\<rparr>))"
  by (simp add: on_canvas_release_def Let_def split: option.splits)

lemma release_view:
  assumes "lists_apart s"
  shows "lists_apart (on_canvas_release c x y s)"
    and "(slot_boxes (on_canvas_release c x y s), undo_stack (on_canvas_release c x y s))
           = (slot_boxes s, undo_stack s)
         \<or> (\<exists>img b. (slot_boxes (on_canvas_release c x y s), undo_stack (on_canvas_release c x y s))
               = ((slot_boxes s)(img := slot_boxes s img @ [b]), undo_stack s @ [(c, img)]))"
proof -
  let ?st = "canvas_drawing_state s c"
  let ?s1 = "s\<lparr>canvas_drawing_state := (canvas_drawing_state s)(c := ?st\<lparr>active_rect_id := False\<rparr>)\<rparr>"
  let ?b = "[min (start_x ?st) x, min (start_y ?st) y, max (start_x ?st) x, max (start_y ?st) y]"
  have a1: "lists_apart ?s1" using assms by (simp add: lists_apart_def)
  have v1: "slot_boxes ?s1 = slot_boxes s" by (simp add: slot_boxes_fun)
  have u1: "undo_stack ?s1 = undo_stack s" by simp
  note ab = append_bbox_view[OF a1]
  have "on_canvas_release c x y s = s \<or> on_canvas_release c x y s = ?s1
        \<or> (\<exists>img. on_canvas_release c x y s =
          (append_bbox img ?b ?s1)\<lparr>undo_stack := undo_stack s @ [(c, img)], unsaved_changes := True\<rparr>)"
    unfolding release_cases Let_def by (cases "image_name ?st") auto
  then consider (idle) "on_canvas_release c x y s = s"
    | (small) "on_canvas_release c x y s = ?s1"
    | (added) img where "on_canvas_release c x y s =
          (append_bbox img ?b ?s1)\<lparr>undo_stack := undo_stack s @ [(c, img)], unsaved_changes := True\<rparr>"
    by blast
  note cases3 = this
  show "lists_apart (on_canvas_release c x y s)"
  proof (rule cases3)
    assume "on_canvas_release c x y s = s" then show ?thesis using assms by simp
  next
    assume "on_canvas_release c x y s = ?s1" then show ?thesis using a1 by simp
  next
    fix img assume r: "on_canvas_release c x y s =
          (append_bbox img ?b ?s1)\<lparr>undo_stack := undo_stack s @ [(c, img)], unsaved_changes := True\<rparr>"
    from ab(2)[of img ?b] show ?thesis unfolding r by (simp add: lists_apart_def)
  qed
  show "(slot_boxes (on_canvas_release c x y s), undo_stack (on_canvas_release c x y s))
           = (slot_boxes s, undo_stack s)
         \<or> (\<exists>img b. (slot_boxes (on_canvas_release c x y s), undo_stack (on_canvas_release c x y s))
               = ((slot_boxes s)(img := slot_boxes s img @ [b]), undo_stack s @ [(c, img)]))"
  proof (rule cases3)
    assume "on_canvas_release c x y s = s" then show ?thesis by simp
  next
    assume "on_canvas_release c x y s = ?s1" then show ?thesis using v1 u1 by simp
  next
    fix img assume r: "on_canvas_release c x y s =
          (append_bbox img ?b ?s1)\<lparr>undo_stack := undo_stack s @ [(c, img)], unsaved_changes := True\<rparr>"
    have "slot_boxes (on_canvas_release c x y s) = slot_boxes (append_bbox img ?b ?s1)"
      unfolding r by (simp add: slot_boxes_fun)
    also have "\<dots> = (slot_boxes s)(img := slot_boxes s img @ [?b])"
      using ab(1)[of img ?b] v1 by simp
    finally have 1: "slot_boxes (on_canvas_release c x y s) = (slot_boxes s)(img := slot_boxes s img @ [?b])" .
    have 2: "undo_stack (on_canvas_release c x y s) = undo_stack s @ [(c, img)]"
      unfolding r by simp
    from 1 2 show ?thesis by blast
  qed
qed

lemma draw_view:
  assumes "lists_apart s"
  shows "lists_apart (draw c p0 p1 s)"
    and "(slot_boxes (draw c p0 p1 s), undo_stack (draw c p0 p1 s)) = (slot_boxes s, undo_stack s)
         \<or> (\<exists>img b. (slot_boxes (draw c p0 p1 s), undo_stack (draw c p0 p1 s))
               = ((slot_boxes s)(img := slot_boxes s img @ [b]), undo_stack s @ [(c, img)]))"
proof -
  let ?p = "on_canvas_press c (fst p0) (snd p0) s"
  have ap: "lists_apart ?p" using assms by (simp add: press_keeps)
  show "lists_apart (draw c p0 p1 s)"
    unfolding draw_def by (rule release_view(1)[OF ap])
  from release_view(2)[OF ap, of c "fst p1" "snd p1"]
  show "(slot_boxes (draw c p0 p1 s), undo_stack (draw c p0 p1 s)) = (slot_boxes s, undo_stack s)
         \<or> (\<exists>img b. (slot_boxes (draw c p0 p1 s), undo_stack (draw c p0 p1 s))
               = ((slot_boxes s)(img := slot_boxes s img @ [b]), undo_stack s @ [(c, img)]))"
    unfolding draw_def press_keeps .
qed

lemma undo_cases:
  "action_undo_last_bbox s =
     (if undo_stack s = [] then s
      else (case map_of (current_subfolder_active_annotations s) (snd (last (undo_stack s))) of
              None \<Rightarrow> s\<lparr>undo_stack := butlast (undo_stack s), unsaved_changes := True\<rparr>
            | Some a \<Rightarrow>
                if heap s a = [] then s\<lparr>undo_stack := butlast (undo_stack s), unsaved_changes := True\<rparr>
                else s\<lparr>undo_stack := butlast (undo_stack s), heap := (heap s)(a := butlast (heap s a)),
                       unsaved_changes := True\<rparr>))"
  by (simp add: action_undo_last_bbox_def Let_def split: option.splits)

lemma undo_view:
  assumes "lists_apart s"
  shows "lists_apart (action_undo_last_bbox s)"
    and "(slot_boxes (action_undo_last_bbox s), undo_stack (action_undo_last_bbox s))
           = undo_view (slot_boxes s, undo_stack s)"
proof -
  let ?w = "current_subfolder_active_annotations s"
  from assms have d: "distinct (map snd ?w)" by (simp add: lists_apart_def)
  show "lists_apart (action_undo_last_bbox s)"
    using assms unfolding undo_cases by (simp add: lists_apart_def split: option.splits)
  show "(slot_boxes (action_undo_last_bbox s), undo_stack (action_undo_last_bbox s))
           = undo_view (slot_boxes s, undo_stack s)"
  proof (cases "undo_stack s = []")
    case True
    then show ?thesis by (simp add: undo_cases undo_view_def)
  next
    case False
    let ?img = "snd (last (undo_stack s))"
    show ?thesis
    proof (cases "map_of ?w ?img")
      case None
      then have "slot_boxes s ?img = []" by (simp add: slot_boxes_def boxes_of_def)
      then have t: "(slot_boxes s)(?img := butlast (slot_boxes s ?img)) = slot_boxes s"
        by (intro ext) simp
      have "slot_boxes (action_undo_last_bbox s) = slot_boxes s"
        using None False unfolding undo_cases by (simp add: slot_boxes_fun)
      moreover have "undo_stack (action_undo_last_bbox s) = butlast (undo_stack s)"
        using None False unfolding undo_cases by simp
      ultimately show ?thesis using False t by (simp add: undo_view_def)
    next
      case (Some a)
      have other: "\<And>k a'. k \<noteq> ?img \<Longrightarrow> map_of ?w k = Some a' \<Longrightarrow> a' \<noteq> a"
        using map_of_inj[OF d] Some by blast
      have here: "slot_boxes s ?img = heap s a"
        using Some by (simp add: slot_boxes_def boxes_of_def)
      have us: "undo_stack (action_undo_last_bbox s) = butlast (undo_stack s)"
        using Some False unfolding undo_cases by simp
      show ?thesis
      proof (cases "heap s a = []")
        case True
        with here have t: "(slot_boxes s)(?img := butlast (slot_boxes s ?img)) = slot_boxes s"
          by (intro ext) simp
        have "slot_boxes (action_undo_last_bbox s) = slot_boxes s"
          using Some False True unfolding undo_cases by (simp add: slot_boxes_fun)
        with us show ?thesis using False t by (simp add: undo_view_def)
      next
        case ne: False
        have r: "action_undo_last_bbox s =
                   s\<lparr>undo_stack := butlast (undo_stack s), heap := (heap s)(a := butlast (heap s a)),
                     unsaved_changes := True\<rparr>"
          using Some False ne unfolding undo_cases by simp
        have "slot_boxes (action_undo_last_bbox s) k = ((slot_boxes s)(?img := butlast (slot_boxes s ?img))) k"
          for k
        proof (cases "k = ?img")
          case True
          then show ?thesis unfolding r using Some by (simp add: slot_boxes_def boxes_of_def)
        next
          case kn: False
          show ?thesis
          proof (cases "map_of ?w k")
            case None
            then show ?thesis unfolding r using kn by (simp add: slot_boxes_def boxes_of_def)
          next
            case (Some a')
            with other[OF kn Some] show ?thesis unfolding r using kn
              by (simp add: slot_boxes_def boxes_of_def)
          qed
        qed
        then have "slot_boxes (action_undo_last_bbox s) = (slot_boxes s)(?img := butlast (slot_boxes s ?img))"
          by (intro ext)
        with us show ?thesis using False by (simp add: undo_view_def)
      qed
    qed
  qed
qed

lemma undos_view:
  "lists_apart s \<Longrightarrow>
   lists_apart (undos k s)
   \<and> (slot_boxes (undos k s), undo_stack (undos k s)) = (undo_view ^^ k) (slot_boxes s, undo_stack s)"
proof (induction k)
  case 0
  then show ?case by (simp add: undos_def)
next
  case (Suc k)
  then have ih: "lists_apart (undos k s)"
    "(slot_boxes (undos k s), undo_stack (undos k s)) = (undo_view ^^ k) (slot_boxes s, undo_stack s)"
    by simp_all
  have step: "undos (Suc k) s = action_undo_last_bbox (undos k s)" by (simp add: undos_def)
  from undo_view[OF ih(1)] ih(2) show ?case unfolding step by simp
qed

lemma draws_snoc: "draws (ds @ [(c, p0, p1)]) s = draw c p0 p1 (draws ds s)"
  by (simp add: draws_def)

lemma draws_apart: "lists_apart s \<Longrightarrow> lists_apart (draws ds s)"
proof (induction ds rule: rev_induct)
  case Nil
  then show ?case by (simp add: draws_def)
next
  case (snoc d ds)
  obtain c p0 p1 where d: "d = (c, p0, p1)" by (cases d) auto
  from snoc show ?case unfolding d draws_snoc by (simp add: draw_view)
qed

lemma undo_view_push:
  "undo_view (v(img := v img @ [b]), st @ [(c, img)]) = (v, st)"
  by (simp add: undo_view_def fun_eq_iff)

lemma draws_then_undos:
  assumes "lists_apart s"
  shows "length (undo_stack (draws ds1 s)) \<le> length (undo_stack (draws (ds1 @ ds2) s))
       \<and> (undo_view ^^ (length (undo_stack (draws (ds1 @ ds2) s)) - length (undo_stack (draws ds1 s))))
            (slot_boxes (draws (ds1 @ ds2) s), undo_stack (draws (ds1 @ ds2) s))
          = (slot_boxes (draws ds1 s), undo_stack (draws ds1 s))"
proof (induction ds2 rule: rev_induct)
  case Nil
  then show ?case by simp
next
  case (snoc d ds2)
  obtain c p0 p1 where d: "d = (c, p0, p1)" by (cases d) auto
  let ?t = "draws (ds1 @ ds2) s"
  let ?t' = "draw c p0 p1 ?t"
  have t': "draws (ds1 @ ds2 @ [d]) s = ?t'"
    unfolding d using draws_snoc[of "ds1 @ ds2" c p0 p1 s] by simp
  have ap: "lists_apart ?t" using assms by (rule draws_apart)
  from draw_view(2)[OF ap, of c p0 p1]
  consider (same) "(slot_boxes ?t', undo_stack ?t') = (slot_boxes ?t, undo_stack ?t)"
    | (more) img b where "(slot_boxes ?t', undo_stack ?t')
               = ((slot_boxes ?t)(img := slot_boxes ?t img @ [b]), undo_stack ?t @ [(c, img)])"
    by blast
  then show ?case
  proof cases
    case same
    with snoc show ?thesis unfolding t' by simp
  next
    case more
    let ?k = "length (undo_stack ?t) - length (undo_stack (draws ds1 s))"
    from more have us: "undo_stack ?t' = undo_stack ?t @ [(c, img)]" by (rule Pair_inject)
    from snoc have le: "length (undo_stack (draws ds1 s)) \<le> length (undo_stack ?t)" by (rule conjunct1)
    from snoc have ih: "(undo_view ^^ ?k) (slot_boxes ?t, undo_stack ?t)
                         = (slot_boxes (draws ds1 s), undo_stack (draws ds1 s))" by (rule conjunct2)
    from us le have k: "length (undo_stack ?t') - length (undo_stack (draws ds1 s)) = Suc ?k"
      by simp
    from us le have le': "length (undo_stack (draws ds1 s)) \<le> length (undo_stack ?t')"
      by simp
    have "(undo_view ^^ Suc ?k) (slot_boxes ?t', undo_stack ?t')
            = (undo_view ^^ ?k) (undo_view (slot_boxes ?t', undo_stack ?t'))"
      by (simp only: funpow_Suc_right o_apply)
    also have "\<dots> = (undo_view ^^ ?k) (slot_boxes ?t, undo_stack ?t)"
      unfolding more by (simp only: undo_view_push)
    also note ih
    finally have "(undo_view ^^ Suc ?k) (slot_boxes ?t', undo_stack ?t')
                    = (slot_boxes (draws ds1 s), undo_stack (draws ds1 s))" .
    with le' show ?thesis unfolding t' k by (rule conjI)
  qed
qed


lemma load_slot_apart: "lists_apart s \<Longrightarrow> lists_apart (load_slot e n fs ann s i)"
proof -
  assume a: "lists_apart s"
  let ?w = "current_subfolder_active_annotations s"
  from a have d: "distinct (map snd ?w)" and below: "\<forall>a \<in> set (map snd ?w). a < next_addr s"
    by (auto simp: lists_apart_def list_all_iff)
  from below have fresh: "next_addr s \<notin> set (map snd ?w)" by auto
  have "distinct (map snd (AList.update k (next_addr s) ?w))" for k
    using d fresh by (rule update_distinct)
  moreover have "\<forall>a \<in> set (map snd (AList.update k (next_addr s) ?w)). a < Suc (next_addr s)" for k
    using update_addrs[of k "next_addr s" ?w] below by fastforce
  ultimately show ?thesis using a
    by (simp add: load_slot_def Let_def lists_apart_def list_all_iff)
qed

lemma load_slots_apart: "lists_apart s \<Longrightarrow> lists_apart (foldl (load_slot e n fs ann) s is)"
  by (induction "is" arbitrary: s) (simp_all add: load_slot_apart)

lemma load_shape:
  assumes "0 \<le> idx" "idx < int (length (subfolders s))"
  shows "\<exists>t ann. load_subfolder_by_index e idx s =
           (foldl (load_slot e (subfolders s ! nat idx) (image_files_of e (subfolders s ! nat idx)) ann)
              t [0, 1, 2, 3])\<lparr>unsaved_changes := False\<rparr>
         \<and> current_subfolder_active_annotations t = []
         \<and> heap t = heap s \<and> next_addr t = next_addr s
         \<and> ann = (case map_of (annotations_data s) (subfolders s ! nat idx) of
                    None \<Rightarrow> [] | Some d \<Rightarrow> annotations d)"
  using assms
  unfolding load_subfolder_by_index_def Let_def clear_display_and_current_data_def
  by (simp only: if_False simp_thms) fastforce

lemma load_apart:
  assumes "0 \<le> idx" "idx < int (length (subfolders s))"
  shows "lists_apart (load_subfolder_by_index e idx s)"
proof -
  from load_shape[OF assms, of e] obtain t ann where
    l: "load_subfolder_by_index e idx s =
           (foldl (load_slot e (subfolders s ! nat idx) (image_files_of e (subfolders s ! nat idx)) ann)
              t [0, 1, 2, 3])\<lparr>unsaved_changes := False\<rparr>"
    and w: "current_subfolder_active_annotations t = []" by blast
  from w have "lists_apart t" by (simp add: lists_apart_def)
  then have "lists_apart (foldl (load_slot e (subfolders s ! nat idx)
                 (image_files_of e (subfolders s ! nat idx)) ann) t [0, 1, 2, 3])"
    by (rule load_slots_apart)
  then show ?thesis unfolding l by (simp add: lists_apart_def)
qed

lemma undos_view_fst:
  assumes "lists_apart s"
    and "(undo_view ^^ k) (slot_boxes s, undo_stack s) = (v, st)"
  shows "slot_boxes (undos k s) = v \<and> undo_stack (undos k s) = st"
  using undos_view[OF assms(1), of k] assms(2) by simp

section \<open>Undo takes back the draws, last first\<close>

text \<open>
  Claim C4. After a group is loaded, any run of draws on the four canvases followed by
  undos removes the boxes in the reverse order of their insertion, whatever canvas each
  was drawn on: for every split of the run into \<open>ds1\<close> and \<open>ds2\<close>, undoing as many
  times as \<open>ds2\<close> added boxes gives the box lists and the undo stack that stood after
  \<open>ds1\<close>; undoing as many times as the whole run added boxes gives the box lists as
  loaded, with an empty undo stack; and undo on an empty undo stack changes nothing.
\<close>

theorem undo_reverses_draws:
  assumes "0 \<le> idx" and "idx < int (length (subfolders s))"
  shows "(let s0 = load_subfolder_by_index e idx s;
              sn = draws (ds1 @ ds2) s0;
              k = length (undo_stack sn) - length (undo_stack (draws ds1 s0))
          in slot_boxes (undos k sn) = slot_boxes (draws ds1 s0)
             \<and> undo_stack (undos k sn) = undo_stack (draws ds1 s0))
       \<and> (let s0 = load_subfolder_by_index e idx s;
               sn = draws ds s0;
               n = length (undo_stack sn)
           in slot_boxes (undos n sn) = slot_boxes s0 \<and> undo_stack (undos n sn) = [])
       \<and> (undo_stack t = [] \<longrightarrow> action_undo_last_bbox t = t)"
proof -
  let ?s0 = "load_subfolder_by_index e idx s"
  have ap: "lists_apart ?s0" using assms by (rule load_apart)
  have e0: "undo_stack ?s0 = []" using assms by (simp add: load_in_range)
  have part: "slot_boxes (undos (length (undo_stack (draws (a @ b) ?s0)) - length (undo_stack (draws a ?s0)))
                     (draws (a @ b) ?s0)) = slot_boxes (draws a ?s0)
            \<and> undo_stack (undos (length (undo_stack (draws (a @ b) ?s0)) - length (undo_stack (draws a ?s0)))
                     (draws (a @ b) ?s0)) = undo_stack (draws a ?s0)" for a b
    using undos_view_fst[OF draws_apart[OF ap, of "a @ b"]] draws_then_undos[OF ap, of a b] by blast
  have d0: "draws [] ?s0 = ?s0" by (simp add: draws_def)
  have 1: "slot_boxes (undos (length (undo_stack (draws ds ?s0))) (draws ds ?s0)) = slot_boxes ?s0
         \<and> undo_stack (undos (length (undo_stack (draws ds ?s0))) (draws ds ?s0)) = []"
    using part[of "[]" ds] by (simp add: d0 e0)
  have 2: "undo_stack t = [] \<longrightarrow> action_undo_last_bbox t = t"
    by (simp add: action_undo_last_bbox_def)
  from part[of ds1 ds2] 1 2 show ?thesis by (simp only: Let_def)
qed

theorem undo_reverses_draws_witness:
  "(0::int) \<le> 0 \<and> 0 < int (length (subfolders (init two_image_env empty_disk)))
   \<and> undo_stack (draws three_draws (load_subfolder_by_index two_image_env 0 (init two_image_env empty_disk)))
       = [(0, ''a.png''), (1, ''b.png''), (0, ''a.png'')]
   \<and> slot_boxes (undos 2 (draws three_draws
         (load_subfolder_by_index two_image_env 0 (init two_image_env empty_disk))))
       = slot_boxes (draws [(0, (10, 10), (100, 100))]
           (load_subfolder_by_index two_image_env 0 (init two_image_env empty_disk)))
   \<and> slot_boxes (draws [(0, (10, 10), (100, 100))]
           (load_subfolder_by_index two_image_env 0 (init two_image_env empty_disk))) ''a.png''
       = [[10, 10, 100, 100]]"
proof -
  let ?ini = "init two_image_env empty_disk"
  let ?ld = "load_subfolder_by_index two_image_env 0 ?ini"
  let ?d1 = "[(0::nat, (10::int, 10::int), (100::int, 100::int))]"
  let ?d2 = "[(1::nat, (20::int, 20::int), (200::int, 200::int)), (0, (30, 30), (300, 300))]"
  have h1: "(0::int) \<le> 0" by simp
  have h2: "0 < int (length (subfolders ?ini))" by code_simp
  have split: "three_draws = ?d1 @ ?d2" by (simp add: three_draws_def)
  have u: "undo_stack (draws three_draws ?ld) = [(0, ''a.png''), (1, ''b.png''), (0, ''a.png'')]"
    by code_simp
  have u1: "undo_stack (draws ?d1 ?ld) = [(0, ''a.png'')]" by code_simp
  have v: "slot_boxes (draws ?d1 ?ld) ''a.png'' = [[10, 10, 100, 100]]" by code_simp
  have k: "length (undo_stack (draws (?d1 @ ?d2) ?ld)) - length (undo_stack (draws ?d1 ?ld)) = 2"
    unfolding split[symmetric] u u1 by simp
  from undo_reverses_draws [OF h1 h2, of two_image_env ?d1 ?d2]
  have "slot_boxes (undos 2 (draws (?d1 @ ?d2) ?ld)) = slot_boxes (draws ?d1 ?ld)"
    unfolding Let_def k by (rule conjunct1[THEN conjunct1])
  with h1 h2 u v show ?thesis unfolding split by simp
qed

section \<open>What a press and a release store\<close>


lemma append_bbox_target: "slot_boxes (append_bbox img b s) img = slot_boxes s img @ [b]"
  by (cases "map_of (current_subfolder_active_annotations s) img")
     (simp_all add: slot_boxes_def boxes_of_def append_bbox_def update_conv')

lemma slot_boxes_frame:
  "slot_boxes (s\<lparr>undo_stack := u\<rparr>) = slot_boxes s"
  "slot_boxes (s\<lparr>unsaved_changes := f\<rparr>) = slot_boxes s"
  "slot_boxes (s\<lparr>canvas_drawing_state := cds\<rparr>) = slot_boxes s"
  by (simp_all add: slot_boxes_fun)

lemma append_bbox_frame:
  "append_bbox img b (s\<lparr>canvas_drawing_state := cds\<rparr>) = (append_bbox img b s)\<lparr>canvas_drawing_state := cds\<rparr>"
  by (simp add: append_bbox_def split: option.splits)

lemma draw_effect:
  assumes "image_name (canvas_drawing_state s c) = Some img"
  shows "slot_boxes (draw c (x0, y0) (x1, y1) s) img =
           (if \<bar>x0 - x1\<bar> < 5 \<or> \<bar>y0 - y1\<bar> < 5 then slot_boxes s img
            else slot_boxes s img @ [[min x0 x1, min y0 y1, max x0 x1, max y0 y1]])"
proof -
  have m: "(max x0 x1 - min x0 x1 < 5) = (\<bar>x0 - x1\<bar> < 5)" "(max y0 y1 - min y0 y1 < 5) = (\<bar>y0 - y1\<bar> < 5)"
    by (auto simp: max_def min_def)
  show ?thesis using assms
    by (simp add: draw_def on_canvas_press_def release_cases Let_def m slot_boxes_frame
          append_bbox_frame append_bbox_target)
qed



lemma clamp_range: "0 < d \<Longrightarrow> 0 \<le> clamp d v \<and> clamp d v \<le> d - 1"
  by (simp add: clamp_def max_def min_def)

lemma clamp_id: "0 \<le> v \<Longrightarrow> v \<le> d - 1 \<Longrightarrow> clamp d v = v"
  by (simp add: clamp_def max_def min_def)

lemma coordinate_mapper_Some:
  "coordinate_mapper (w, h) (x0, y0) (x1, y1) = Some b \<Longrightarrow>
   b = [clamp w (min x0 x1), clamp h (min y0 y1), clamp w (max x0 x1), clamp h (max y0 y1)]
   \<and> 5 \<le> clamp w (max x0 x1) - clamp w (min x0 x1)
   \<and> 5 \<le> clamp h (max y0 y1) - clamp h (min y0 y1)"
  by (simp add: coordinate_mapper_def Let_def split: if_splits)

lemma coordinate_mapper_canonical:
  assumes "coordinate_mapper (w, h) p0 p1 = Some b"
  shows "canonical b"
proof -
  obtain x0 y0 x1 y1 where p: "p0 = (x0, y0)" "p1 = (x1, y1)" by (cases p0, cases p1) auto
  from coordinate_mapper_Some[OF assms[unfolded p]]
  show ?thesis by (simp add: canonical_def)
qed

lemma coordinate_mapper_in_range:
  assumes "0 < w" "0 < h" "coordinate_mapper (w, h) p0 p1 = Some b"
  shows "0 \<le> b ! 0 \<and> b ! 2 \<le> w - 1 \<and> 0 \<le> b ! 1 \<and> b ! 3 \<le> h - 1"
proof -
  obtain x0 y0 x1 y1 where p: "p0 = (x0, y0)" "p1 = (x1, y1)" by (cases p0, cases p1) auto
  from coordinate_mapper_Some[OF assms(3)[unfolded p]] clamp_range[OF assms(1)] clamp_range[OF assms(2)]
  show ?thesis by simp
qed

lemma draw_on_surface:
  assumes "image_name (canvas_drawing_state s c) = Some img"
    and "0 \<le> x0" "x0 \<le> fst IMAGE_DISPLAY_SIZE - 1" "0 \<le> y0" "y0 \<le> snd IMAGE_DISPLAY_SIZE - 1"
    and "0 \<le> x1" "x1 \<le> fst IMAGE_DISPLAY_SIZE - 1" "0 \<le> y1" "y1 \<le> snd IMAGE_DISPLAY_SIZE - 1"
  shows "slot_boxes (draw c (x0, y0) (x1, y1) s) img =
           (case coordinate_mapper IMAGE_DISPLAY_SIZE (x0, y0) (x1, y1) of
              None \<Rightarrow> slot_boxes s img
            | Some b \<Rightarrow> slot_boxes s img @ [b])"
proof -
  have m: "(max a b - min a b < 5) = (\<bar>a - b\<bar> < 5)" for a b :: int
    by (auto simp: max_def min_def)
  have ids: "clamp 500 (min x0 x1) = min x0 x1" "clamp 500 (max x0 x1) = max x0 x1"
            "clamp 500 (min y0 y1) = min y0 y1" "clamp 500 (max y0 y1) = max y0 y1"
    using assms(2-) by (simp_all add: clamp_id IMAGE_DISPLAY_SIZE_def)
  show ?thesis
    by (simp add: draw_effect[OF assms(1)] coordinate_mapper_def Let_def IMAGE_DISPLAY_SIZE_def ids m)
qed



text \<open>
  Claim C3. The box produced from a press and a release is \<open>[min x, min y, max x, max y]\<close>
  with each coordinate clamped into \<open>[0, dim - 1]\<close>. The older variant does this for all
  positions (\<open>draw_v1_effect\<close>) and the newer one agrees with it while both positions
  lie on the surface (\<open>draw_on_surface\<close>), but the newer variant has no clamping: a drag
  from \<open>(10, 10)\<close> that is released at \<open>(700, 300)\<close>, beyond the right edge of the canvas
  of 500 by 500, stores the box \<open>[10, 10, 700, 300]\<close>, where the Coordinate Mapper of the
  specification and the older variant give \<open>[10, 10, 499, 300]\<close>.
\<close>

theorem release_outside_surface_is_not_clamped:
  "slot_boxes (draw 0 (10, 10) (700, 300) (init one_group_env empty_disk)) ''a.png''
     = [[10, 10, 700, 300]]
   \<and> coordinate_mapper IMAGE_DISPLAY_SIZE (10, 10) (700, 300) = Some [10, 10, 499, 300]
   \<and> slot_boxes (draw_v1 0 (10, 10) (700, 300) one_group_session_v1) ''a.png''
     = [[10, 10, 499, 300]]"
  by code_simp

section \<open>Saving and loading again\<close>


lemma boxes_of_agree:
  assumes "list_all (\<lambda>a. a < n0) (map snd ann)" and "\<forall>a < n0. h a = h0 a"
  shows "boxes_of h ann k = boxes_of h0 ann k"
proof (cases "map_of ann k")
  case None
  then show ?thesis by (simp add: boxes_of_def)
next
  case (Some a)
  then have "a \<in> set (map snd ann)" by (rule map_of_addr_in)
  with assms(1) have "a < n0" by (auto simp: list_all_iff)
  with assms(2) Some show ?thesis by (simp add: boxes_of_def)
qed

lemma update_set: "set (AList.update k v w) \<subseteq> insert (k, v) (set w)"
  by (induction w) auto

lemma update_keys: "fst ` set (AList.update k v w) = insert k (fst ` set w)"
  by (induction w) auto

lemma load_slot_copies:
  assumes "copies_of n0 h0 ann s" and "list_all (\<lambda>a. a < n0) (map snd ann)"
  shows "copies_of n0 h0 ann (load_slot e n fs ann s i)"
proof (cases "i < length fs \<and> image_ok e n (fs ! i)")
  case False
  with assms(1) show ?thesis by (auto simp: load_slot_def Let_def)
next
  case True
  let ?img = "fs ! i"
  let ?w = "current_subfolder_active_annotations s"
  from assms(1) have le: "n0 \<le> next_addr s" and low: "\<forall>a < n0. heap s a = h0 a"
    and ws: "\<forall>(k, a) \<in> set ?w. n0 \<le> a \<and> a < next_addr s \<and> heap s a = boxes_of h0 ann k"
    by (simp_all add: copies_of_def list_all_iff)
  have b: "boxes_of (heap s) ann ?img = boxes_of h0 ann ?img"
    using assms(2) low by (rule boxes_of_agree)
  let ?s' = "load_slot e n fs ann s i"
  have w': "current_subfolder_active_annotations ?s' = AList.update ?img (next_addr s) ?w"
    and h': "heap ?s' = (heap s)(next_addr s := boxes_of h0 ann ?img)"
    and n': "next_addr ?s' = Suc (next_addr s)"
    using True b by (simp_all add: load_slot_def Let_def)
  have "\<forall>(k, a) \<in> set (AList.update ?img (next_addr s) ?w).
          n0 \<le> a \<and> a < Suc (next_addr s)
          \<and> ((heap s)(next_addr s := boxes_of h0 ann ?img)) a = boxes_of h0 ann k"
  proof (intro ballI, clarify)
    fix k a assume "(k, a) \<in> set (AList.update ?img (next_addr s) ?w)"
    with update_set[of ?img "next_addr s" ?w]
    have "(k, a) = (?img, next_addr s) \<or> (k, a) \<in> set ?w" by auto
    then show "n0 \<le> a \<and> a < Suc (next_addr s)
          \<and> ((heap s)(next_addr s := boxes_of h0 ann ?img)) a = boxes_of h0 ann k"
    proof
      assume "(k, a) = (?img, next_addr s)"
      with le show ?thesis by simp
    next
      assume "(k, a) \<in> set ?w"
      with ws have "n0 \<le> a \<and> a < next_addr s \<and> heap s a = boxes_of h0 ann k" by auto
      then show ?thesis by simp
    qed
  qed
  moreover have "\<forall>a < n0. ((heap s)(next_addr s := boxes_of h0 ann ?img)) a = h0 a"
    using le low by simp
  ultimately show ?thesis
    unfolding copies_of_def w' h' n' list_all_iff using le by simp
qed

lemma load_slot_keys:
  "fst ` set (current_subfolder_active_annotations s)
     \<subseteq> fst ` set (current_subfolder_active_annotations (load_slot e n fs ann s i))"
  "i < length fs \<Longrightarrow> image_ok e n (fs ! i) \<Longrightarrow>
   fs ! i \<in> fst ` set (current_subfolder_active_annotations (load_slot e n fs ann s i))"
  by (auto simp: load_slot_def Let_def update_keys)

lemma load_slots_copies:
  "copies_of n0 h0 ann s \<Longrightarrow> list_all (\<lambda>a. a < n0) (map snd ann) \<Longrightarrow>
   copies_of n0 h0 ann (foldl (load_slot e n fs ann) s is)"
  by (induction "is" arbitrary: s) (simp_all add: load_slot_copies)

lemma load_slots_keys_mono:
  "fst ` set (current_subfolder_active_annotations s)
     \<subseteq> fst ` set (current_subfolder_active_annotations (foldl (load_slot e n fs ann) s is))"
proof (induction "is" arbitrary: s)
  case Nil
  then show ?case by simp
next
  case (Cons i "is")
  from load_slot_keys(1)[of s e n fs ann i] Cons[of "load_slot e n fs ann s i"]
  show ?case by (simp del: image_subset_iff)
qed

lemma load_slots_keys:
  "i \<in> set is \<Longrightarrow> i < length fs \<Longrightarrow> image_ok e n (fs ! i) \<Longrightarrow>
   fs ! i \<in> fst ` set (current_subfolder_active_annotations (foldl (load_slot e n fs ann) s is))"
proof (induction "is" arbitrary: s)
  case Nil
  then show ?case by simp
next
  case (Cons j "is")
  show ?case
  proof (cases "i = j")
    case True
    from load_slot_keys(2)[OF Cons.prems(2,3), of ann s]
         load_slots_keys_mono[of "load_slot e n fs ann s i" e n fs ann "is"]
    show ?thesis unfolding True[symmetric] by auto
  next
    case False
    with Cons.prems have "i \<in> set is" by simp
    from Cons.IH[OF this Cons.prems(2,3)] show ?thesis by simp
  qed
qed

lemma copies_of_boxes:
  assumes "copies_of n0 h0 ann s" and "k \<in> fst ` set (current_subfolder_active_annotations s)"
  shows "slot_boxes s k = boxes_of h0 ann k"
proof -
  from assms(2) obtain a where "map_of (current_subfolder_active_annotations s) k = Some a"
    by (metis domD dom_map_of_conv_image_fst)
  moreover from this have "(k, a) \<in> set (current_subfolder_active_annotations s)"
    by (rule map_of_SomeD)
  with assms(1) have "heap s a = boxes_of h0 ann k" by (auto simp: copies_of_def list_all_iff)
  ultimately show ?thesis by (simp add: slot_boxes_def boxes_of_def)
qed

lemma load_boxes:
  assumes "0 \<le> idx" "idx < int (length (subfolders s))"
    and "list_all (\<lambda>a. a < next_addr s)
           (map snd (case map_of (annotations_data s) (subfolders s ! nat idx) of
                       None \<Rightarrow> [] | Some d \<Rightarrow> annotations d))"
  shows "\<forall>i < 4. i < length (image_files_of e (subfolders s ! nat idx))
               \<and> image_ok e (subfolders s ! nat idx) (image_files_of e (subfolders s ! nat idx) ! i) \<longrightarrow>
           slot_boxes (load_subfolder_by_index e idx s) (image_files_of e (subfolders s ! nat idx) ! i)
             = boxes_of (heap s)
                 (case map_of (annotations_data s) (subfolders s ! nat idx) of
                    None \<Rightarrow> [] | Some d \<Rightarrow> annotations d)
                 (image_files_of e (subfolders s ! nat idx) ! i)"
    and "next_addr s \<le> next_addr (load_subfolder_by_index e idx s)"
    and "\<forall>a < next_addr s. heap (load_subfolder_by_index e idx s) a = heap s a"
proof -
  let ?n = "subfolders s ! nat idx"
  let ?fs = "image_files_of e ?n"
  let ?ann = "case map_of (annotations_data s) ?n of None \<Rightarrow> [] | Some d \<Rightarrow> annotations d"
  from load_shape[OF assms(1,2), of e] obtain t where
    l: "load_subfolder_by_index e idx s =
          (foldl (load_slot e ?n ?fs ?ann) t [0, 1, 2, 3])\<lparr>unsaved_changes := False\<rparr>"
    and w: "current_subfolder_active_annotations t = []"
    and h: "heap t = heap s" and n: "next_addr t = next_addr s" by blast
  let ?f = "foldl (load_slot e ?n ?fs ?ann) t [0, 1, 2, 3]"
  have c0: "copies_of (next_addr s) (heap s) ?ann t" using w h n by (simp add: copies_of_def)
  have c: "copies_of (next_addr s) (heap s) ?ann ?f"
    using c0 assms(3) by (rule load_slots_copies)
  have cl: "copies_of (next_addr s) (heap s) ?ann (load_subfolder_by_index e idx s)"
    using c unfolding l by (simp add: copies_of_def)
  from cl show "next_addr s \<le> next_addr (load_subfolder_by_index e idx s)"
    and "\<forall>a < next_addr s. heap (load_subfolder_by_index e idx s) a = heap s a"
    by (simp_all add: copies_of_def)
  show "\<forall>i < 4. i < length ?fs \<and> image_ok e ?n (?fs ! i) \<longrightarrow>
           slot_boxes (load_subfolder_by_index e idx s) (?fs ! i) = boxes_of (heap s) ?ann (?fs ! i)"
  proof (intro allI impI, elim conjE)
    fix i :: nat assume i: "i < 4" "i < length ?fs" "image_ok e ?n (?fs ! i)"
    from i(1) have "i \<in> set [0, 1, 2, 3]" by auto
    from load_slots_keys[OF this i(2,3), of ?ann t]
    have "?fs ! i \<in> fst ` set (current_subfolder_active_annotations
                                 (load_subfolder_by_index e idx s))"
      unfolding l by simp
    with cl show "slot_boxes (load_subfolder_by_index e idx s) (?fs ! i) = boxes_of (heap s) ?ann (?fs ! i)"
      by (rule copies_of_boxes)
  qed
qed


lemma load_category:
  assumes "0 \<le> idx" "idx < int (length (subfolders s))"
  shows "annotation_type_var (load_subfolder_by_index e idx s) =
           (let t = (case map_of (annotations_data s) (subfolders s ! nat idx) of
                       None \<Rightarrow> annotation_type_var s
                     | Some d \<Rightarrow> (case type_of_annotation d of
                                   None \<Rightarrow> annotation_type_var s | Some t \<Rightarrow> t))
            in if t \<in> set (combo_values s) then t
               else (case combo_values s of [] \<Rightarrow> [] | v # _ \<Rightarrow> v))"
    and "combo_values (load_subfolder_by_index e idx s) = combo_values s"
  using assms
  by (simp_all add: load_subfolder_by_index_def Let_def load_slots_keep
        clear_display_and_current_data_def del: foldl_Cons split: option.splits)

lemma list_all_less_mono:
  "list_all (\<lambda>a. a < n) xs \<Longrightarrow> n \<le> m \<Longrightarrow> list_all (\<lambda>a. a < (m::nat)) xs"
  by (auto simp: list_all_iff)

text \<open>
  Claim C5, as amended. The claim says that a save followed by a reload of the same group
  reproduces the box list of every image and the selected category. For the boxes this
  holds for every image of the group that is loaded into one of the four canvases: after
  the save (which reloads the group itself) and after a further reload, its boxes are
  those held before the save. Boxes held under a name that no canvas of the group shows
  are left out of the statement: they come from a defect of the newer variant, shown in
  the counterexample below. For the category it holds whenever the selected category is
  one of the values offered by the combobox (the annotation types without \<open>other\<close>);
  \<^verbatim>\<open>_load_subfolder_by_index\<close> replaces any other stored category by the first offered
  value, or by the empty string when nothing is offered.
\<close>

theorem save_reload_round_trip:
  assumes "current_subfolder_name s \<noteq> []"
    and "0 \<le> current_subfolder_index s"
    and "current_subfolder_index s < int (length (subfolders s))"
    and "subfolders s ! nat (current_subfolder_index s) = current_subfolder_name s"
    and "list_all (\<lambda>a. a < next_addr s) (map snd (current_subfolder_active_annotations s))"
  shows "(let saved = snd (action_save_annotations e False s);
              reloaded = load_subfolder_by_index e (current_subfolder_index s) saved;
              image_files = image_files_of e (current_subfolder_name s);
              category = (if annotation_type_var s \<in> set (combo_values s) then annotation_type_var s
                          else (case combo_values s of [] \<Rightarrow> [] | v # _ \<Rightarrow> v))
          in (\<forall>i < 4. i < length image_files
                       \<and> image_ok e (current_subfolder_name s) (image_files ! i) \<longrightarrow>
                slot_boxes saved (image_files ! i) = slot_boxes s (image_files ! i)
                \<and> slot_boxes reloaded (image_files ! i) = slot_boxes s (image_files ! i))
             \<and> annotation_type_var saved = category
             \<and> annotation_type_var reloaded = category)"
proof -
  let ?idx = "current_subfolder_index s"
  let ?name = "current_subfolder_name s"
  let ?w = "current_subfolder_active_annotations s"
  let ?t = "snd (action_save_annotations e True s)"
  let ?saved = "load_subfolder_by_index e ?idx ?t"
  let ?reloaded = "load_subfolder_by_index e ?idx ?saved"
  let ?fs = "image_files_of e ?name"
  let ?cat = "if annotation_type_var s \<in> set (combo_values s) then annotation_type_var s
              else (case combo_values s of [] \<Rightarrow> [] | v # _ \<Rightarrow> v)"
  note tf = save_next_fields[OF assms(1), of e]
  have sv: "snd (action_save_annotations e False s) = ?saved" using assms(1) by (rule save_reload)
  have rt: "0 \<le> ?idx" "?idx < int (length (subfolders ?t))" using assms(2,3) tf(3) by simp_all
  have nm: "subfolders ?t ! nat ?idx = ?name" using assms(4) tf(3) by simp
  have rec: "map_of (annotations_data ?t) ?name
               = Some \<lparr>type_of_annotation = Some (annotation_type_var s), annotations = ?w\<rparr>"
    by (simp add: tf(11) update_conv')
  have ann_t: "(case map_of (annotations_data ?t) (subfolders ?t ! nat ?idx) of
                  None \<Rightarrow> [] | Some d \<Rightarrow> annotations d) = ?w"
    by (simp add: nm rec)
  have low_t: "list_all (\<lambda>a. a < next_addr ?t)
                 (map snd (case map_of (annotations_data ?t) (subfolders ?t ! nat ?idx) of
                             None \<Rightarrow> [] | Some d \<Rightarrow> annotations d))"
    unfolding ann_t tf(10) by (rule assms(5))
  note lb = load_boxes[OF rt low_t, of e, unfolded ann_t nm tf(9) tf(10)]
  have rs: "0 \<le> ?idx" "?idx < int (length (subfolders ?saved))"
    using rt load_in_range(6)[OF rt, of e] by simp_all
  have nm_s: "subfolders ?saved ! nat ?idx = ?name"
    using nm load_in_range(6)[OF rt, of e] by simp
  have rec_s: "map_of (annotations_data ?saved) ?name
               = Some \<lparr>type_of_annotation = Some (annotation_type_var s), annotations = ?w\<rparr>"
    using rec load_in_range(7)[OF rt, of e] by simp
  have ann_s: "(case map_of (annotations_data ?saved) (subfolders ?saved ! nat ?idx) of
                  None \<Rightarrow> [] | Some d \<Rightarrow> annotations d) = ?w"
    by (simp add: nm_s rec_s)
  have low_s: "list_all (\<lambda>a. a < next_addr ?saved)
                 (map snd (case map_of (annotations_data ?saved) (subfolders ?saved ! nat ?idx) of
                             None \<Rightarrow> [] | Some d \<Rightarrow> annotations d))"
    unfolding ann_s using assms(5) lb(2) by (rule list_all_less_mono)
  note lb2 = load_boxes[OF rs low_s, of e, unfolded ann_s nm_s]
  have agree: "boxes_of (heap ?saved) ?w k = boxes_of (heap s) ?w k" for k
    using assms(5) lb(3) by (rule boxes_of_agree)
  have boxes: "\<forall>i < 4. i < length ?fs \<and> image_ok e ?name (?fs ! i) \<longrightarrow>
                 slot_boxes ?saved (?fs ! i) = slot_boxes s (?fs ! i)
                 \<and> slot_boxes ?reloaded (?fs ! i) = slot_boxes s (?fs ! i)"
    using lb(1) lb2(1) agree by (simp add: slot_boxes_def rec rec_s)
  have c1: "annotation_type_var ?saved = ?cat"
    using load_category(1)[OF rt, of e] by (simp add: nm rec tf(7))
  have cv: "combo_values ?saved = combo_values s"
    using load_category(2)[OF rt, of e] tf(7) by simp
  have c2: "annotation_type_var ?reloaded = ?cat"
    using load_category(1)[OF rs, of e] by (simp add: nm_s rec_s cv)
  from boxes c1 c2 show ?thesis unfolding Let_def sv by blast
qed

theorem save_reload_round_trip_witness:
  "current_subfolder_name (one_box_session one_group_env) \<noteq> []
   \<and> annotation_type_var (one_box_session one_group_env) \<in> set (combo_values (one_box_session one_group_env))
   \<and> slot_boxes (one_box_session one_group_env) ''a.png'' = [[10, 10, 100, 100]]
   \<and> slot_boxes (load_subfolder_by_index one_group_env 0
         (snd (action_save_annotations one_group_env False (one_box_session one_group_env)))) ''a.png''
       = [[10, 10, 100, 100]]
   \<and> annotation_type_var (load_subfolder_by_index one_group_env 0
         (snd (action_save_annotations one_group_env False (one_box_session one_group_env))))
       = annotation_type_var (one_box_session one_group_env)"
proof -
  let ?b = "one_box_session one_group_env"
  have h1: "current_subfolder_name ?b \<noteq> []" by code_simp
  have i0: "current_subfolder_index ?b = 0" by code_simp
  have h2: "0 \<le> current_subfolder_index ?b" by code_simp
  have h3: "current_subfolder_index ?b < int (length (subfolders ?b))" by code_simp
  have h4: "subfolders ?b ! nat (current_subfolder_index ?b) = current_subfolder_name ?b" by code_simp
  have h5: "list_all (\<lambda>a. a < next_addr ?b) (map snd (current_subfolder_active_annotations ?b))"
    by code_simp
  have c: "annotation_type_var ?b \<in> set (combo_values ?b)" by code_simp
  have n: "current_subfolder_name ?b = ''A''" by code_simp
  have f: "image_files_of one_group_env ''A'' = [''a.png'']" by code_simp
  have ok: "image_ok one_group_env ''A'' ''a.png''" by code_simp
  have v: "slot_boxes ?b ''a.png'' = [[10, 10, 100, 100]]" by code_simp
  from save_reload_round_trip [OF h1 h2 h3 h4 h5, of one_group_env]
  have "slot_boxes (load_subfolder_by_index one_group_env 0
           (snd (action_save_annotations one_group_env False ?b))) ''a.png'' = slot_boxes ?b ''a.png''
      \<and> annotation_type_var (load_subfolder_by_index one_group_env 0
           (snd (action_save_annotations one_group_env False ?b))) = annotation_type_var ?b"
    unfolding Let_def i0 n f using ok c by simp
  with h1 c v show ?thesis by simp
qed

text \<open>
  The claim as stated fails. For the category: entering \<open>Other\<close> in the add-new dialog
  selects the existing type \<open>other\<close>, the save writes it to the store, and the reload
  selects \<open>paragraphs\<close> instead. For the boxes: \<^verbatim>\<open>_clear_display_and_current_data\<close> of
  the newer variant does not reset \<^verbatim>\<open>canvas_drawing_state\<close> (the older variant does),
  so in group \<open>B\<close> the second canvas, which shows no image, still carries the name
  \<open>a2.png\<close> from group \<open>A\<close>; a box drawn on it is recorded under that name, the save
  writes it to the record of \<open>B\<close>, and after the reload the working annotations no longer
  hold it.
\<close>

theorem save_reload_round_trip_counterexample:
  "annotation_type_var (add_new_annotation_type one_group_env (Some ''Other'')
      (one_box_session one_group_env)) = ''other''
   \<and> annotation_type_var (snd (action_save_annotations one_group_env False
        (add_new_annotation_type one_group_env (Some ''Other'') (one_box_session one_group_env))))
       = ''paragraphs''
   \<and> annotation_type_var (load_subfolder_by_index one_group_env 0
        (snd (action_save_annotations one_group_env False
          (add_new_annotation_type one_group_env (Some ''Other'') (one_box_session one_group_env)))))
       = ''paragraphs''
   \<and> annotations_file (files (snd (action_save_annotations one_group_env False
        (add_new_annotation_type one_group_env (Some ''Other'') (one_box_session one_group_env)))))
       = Parsed [(''A'', Some ''other'', [(''a.png'', [[10, 10, 100, 100]])])]
   \<and> current_subfolder_name stale_canvas_session = ''B''
   \<and> current_image_names stale_canvas_session = [Some ''b1.png'', None, None, None]
   \<and> slot_boxes stale_canvas_session ''a2.png'' = [[10, 10, 100, 100]]
   \<and> slot_boxes (snd (action_save_annotations two_group_env False stale_canvas_session)) ''a2.png''
       = []
   \<and> stored_boxes (snd (action_save_annotations two_group_env False stale_canvas_session))
        ''B'' ''a2.png''
       = [[10, 10, 100, 100]]"
  by code_simp

section \<open>Where a session resumes\<close>


lemma first_not_completed_Some:
  "first_not_completed subs completed i = Some k \<Longrightarrow>
   i \<le> k \<and> k - i < length subs \<and> subs ! (k - i) \<notin> set completed
   \<and> (\<forall>j < k - i. subs ! j \<in> set completed)"
proof (induction subs arbitrary: i)
  case Nil
  then show ?case by simp
next
  case (Cons f rest)
  show ?case
  proof (cases "f \<notin> set completed")
    case True
    with Cons.prems show ?thesis by simp
  next
    case False
    with Cons.prems have "first_not_completed rest completed (Suc i) = Some k" by simp
    from Cons.IH[OF this] have ih: "Suc i \<le> k" "k - Suc i < length rest"
      "rest ! (k - Suc i) \<notin> set completed" "\<forall>j < k - Suc i. rest ! j \<in> set completed" by auto
    from ih(1) have ki: "k - i = Suc (k - Suc i)" by simp
    have "\<forall>j < k - i. (f # rest) ! j \<in> set completed"
    proof (intro allI impI)
      fix j assume "j < k - i"
      then show "(f # rest) ! j \<in> set completed"
        using False ih(4) ki by (cases j) auto
    qed
    with ih ki show ?thesis by simp
  qed
qed

lemma first_not_completed_None:
  "(first_not_completed subs completed i = None) = (set subs \<subseteq> set completed)"
  by (induction subs arbitrary: i) auto

lemma start_index_of_spec:
  assumes "subs \<noteq> []"
  shows "\<exists>i < length subs. start_index_of subs completed = int i
          \<and> (if set subs \<subseteq> set completed then i = length subs - 1
              else subs ! i \<notin> set completed \<and> (\<forall>j < i. subs ! j \<in> set completed))"
proof (cases "first_not_completed subs completed 0")
  case None
  then have "set subs \<subseteq> set completed" by (simp add: first_not_completed_None)
  moreover from None have "start_index_of subs completed = int (length subs - 1)"
    using assms by (cases subs) (simp_all add: start_index_of_def)
  ultimately show ?thesis using assms by (intro exI[of _ "length subs - 1"]) simp
next
  case (Some k)
  then have "\<not> set subs \<subseteq> set completed"
    using first_not_completed_None[of subs completed 0] by simp
  moreover from Some have "start_index_of subs completed = int k" by (simp add: start_index_of_def)
  moreover from first_not_completed_Some[OF Some]
  have "k < length subs" "subs ! k \<notin> set completed" "\<forall>j < k. subs ! j \<in> set completed" by auto
  ultimately show ?thesis by (intro exI[of _ k]) simp
qed

lemma thaw_fields:
  "subfolders (load_annotations_from_file s) = subfolders s"
  "files (load_annotations_from_file s) = files s"
  "progress_data (load_annotations_from_file s) = progress_data s"
  by (simp_all add: load_annotations_from_file_def split: prod.splits)

lemma load_annotation_types_fields:
  "progress_file (files (load_annotation_types e s)) = progress_file (files s)"
  "annotations_file (files (load_annotation_types e s)) = annotations_file (files s)"
  "subfolders (load_annotation_types e s) = subfolders s"
  by (simp_all add: load_annotation_types_def save_annotation_types_def write_json_file_def
        truncate_file_others split: json_file.splits types_json.splits write_result.splits)

lemma rebuild_fields:
  "files (rebuild_annotation_widgets s) = files s"
  "subfolders (rebuild_annotation_widgets s) = subfolders s"
  "annotation_types (rebuild_annotation_widgets s) = annotation_types s"
  "combo_values (rebuild_annotation_widgets s) = filter (\<lambda>t. t \<noteq> ''other'') (annotation_types s)"
  by (simp_all add: rebuild_annotation_widgets_def Let_def)

text \<open>
  Claim C6. Started on a folder with subfolders, the session lists them in sorted order
  and loads the first one whose name is not among the completed names of the progress
  store; when all of them are completed it loads the last one. With the groups \<open>A\<close>,
  \<open>B\<close>, \<open>C\<close> and \<open>A\<close> completed, the active group after the start is \<open>B\<close>.
\<close>

theorem resume_at_first_incomplete:
  assumes "chosen_folder e \<noteq> []" and "main_listing e = Some ds" and "ds \<noteq> []"
  shows "subfolders (init e d) = sort ds
       \<and> (\<exists>i < length ds.
            current_subfolder_index (init e d) = int i
            \<and> current_subfolder_name (init e d) = sort ds ! i
            \<and> (let completed = (case read_json_file (progress_file d) (Some []) of
                                  None \<Rightarrow> [] | Some cs \<Rightarrow> cs)
               in if set ds \<subseteq> set completed then i = length ds - 1
                  else sort ds ! i \<notin> set completed \<and> (\<forall>j < i. sort ds ! j \<in> set completed)))"
proof -
  let ?completed = "case read_json_file (progress_file d) (Some []) of None \<Rightarrow> [] | Some cs \<Rightarrow> cs"
  let ?a = "rebuild_annotation_widgets (load_annotation_types e (new_app d))"
  let ?b = "load_progress_from_file (load_annotations_from_file (discover_subfolders e ?a))"
  have pf: "progress_file (files ?a) = progress_file d"
    by (simp add: rebuild_fields load_annotation_types_fields new_app_def)
  have subs: "subfolders ?b = sort ds"
    using assms(2) by (simp add: load_progress_from_file_def thaw_fields discover_subfolders_def)
  have prog: "progress_data ?b = read_json_file (progress_file d) (Some [])"
    using assms(2) pf
    by (simp add: load_progress_from_file_def thaw_fields discover_subfolders_def)
  have ne: "sort ds \<noteq> []" using assms(3) by (metis length_0_conv length_sort)
  have ini: "init e d = load_subfolder_by_index e (start_index_of (sort ds) ?completed) ?b"
    using assms ne subs prog
    by (simp add: init_def load_initial_state_def Let_def discover_subfolders_def
          load_progress_from_file_def thaw_fields)
  from start_index_of_spec[OF ne, of ?completed] obtain i where
    i: "i < length (sort ds)" "start_index_of (sort ds) ?completed = int i"
       "if set (sort ds) \<subseteq> set ?completed then i = length (sort ds) - 1
        else sort ds ! i \<notin> set ?completed \<and> (\<forall>j < i. sort ds ! j \<in> set ?completed)"
    by blast
  have r1: "0 \<le> int i" "int i < int (length (subfolders ?b))" using i(1) subs by simp_all
  have len: "i < length ds" using i(1) by simp
  have c3: "if set ds \<subseteq> set ?completed then i = length ds - 1
            else sort ds ! i \<notin> set ?completed \<and> (\<forall>j < i. sort ds ! j \<in> set ?completed)"
    using i(3) by (simp only: set_sort length_sort)
  have A: "subfolders (init e d) = sort ds"
    unfolding ini i(2) using load_in_range(6)[OF r1] subs by simp
  have B: "current_subfolder_index (init e d) = int i"
    unfolding ini i(2) using load_in_range(3)[OF r1] by simp
  have C: "current_subfolder_name (init e d) = sort ds ! i"
    unfolding ini i(2) using load_in_range(4)[OF r1] subs by simp
  from A B C len c3 show ?thesis unfolding Let_def by blast
qed

theorem resume_at_first_incomplete_witness:
  "chosen_folder abc_env \<noteq> [] \<and> main_listing abc_env = Some [''C'', ''A'', ''B'']
   \<and> subfolders (init abc_env progress_A_disk) = [''A'', ''B'', ''C'']
   \<and> current_subfolder_index (init abc_env progress_A_disk) = 1
   \<and> current_subfolder_name (init abc_env progress_A_disk) = ''B''"
proof -
  have h1: "chosen_folder abc_env \<noteq> []" by code_simp
  have h2: "main_listing abc_env = Some [''C'', ''A'', ''B'']" by code_simp
  have h3: "[''C'', ''A'', ''B''] \<noteq> []" by simp
  have srt: "sort [''C'', ''A'', ''B''] = [''A'', ''B'', ''C'']" by code_simp
  have i: "current_subfolder_index (init abc_env progress_A_disk) = 1" by code_simp
  from resume_at_first_incomplete [OF h1 h2 h3, of progress_A_disk] obtain k where
    s: "subfolders (init abc_env progress_A_disk) = sort [''C'', ''A'', ''B'']"
    and k: "current_subfolder_index (init abc_env progress_A_disk) = int k"
           "current_subfolder_name (init abc_env progress_A_disk) = sort [''C'', ''A'', ''B''] ! k"
    by blast
  from k(1) i have "k = 1" by simp
  with k(2) have "current_subfolder_name (init abc_env progress_A_disk) = ''B''"
    unfolding srt by simp
  with h1 h2 s i show ?thesis unfolding srt by simp
qed

section \<open>Adding an annotation type\<close>


lemma is_space_lower_char: "is_space (lower_char c) = is_space c"
proof (cases "is_upper c")
  case True
  then have r: "(65 \<le> (of_char c :: nat) \<and> (of_char c :: nat) \<le> 90)
      \<or> (192 \<le> (of_char c :: nat) \<and> (of_char c :: nat) \<le> 214)
      \<or> (216 \<le> (of_char c :: nat) \<and> (of_char c :: nat) \<le> 222)"
    by (simp add: is_upper_def)
  then have "(of_char (char_of ((of_char c :: nat) + 32)) :: nat) = of_char c + 32" by auto
  with r True show ?thesis by (auto simp: lower_char_def is_space_def)
next
  case False
  then show ?thesis by (simp add: lower_char_def)
qed

lemma dropWhile_lower: "dropWhile is_space (map lower_char s) = map lower_char (dropWhile is_space s)"
  by (induction s) (simp_all add: is_space_lower_char)

lemma strip_lower: "strip (lower s) = lower (strip s)"
proof -
  have "strip (map lower_char s)
          = rev (dropWhile is_space (map lower_char (rev (dropWhile is_space s))))"
    by (simp only: strip_def dropWhile_lower rev_map)
  also have "\<dots> = map lower_char (rev (dropWhile is_space (rev (dropWhile is_space s))))"
    by (simp only: dropWhile_lower rev_map)
  finally show ?thesis by (simp only: lower_def strip_def)
qed

lemma strip_lower_empty: "(strip (lower s) = []) = (strip s = [])"
  unfolding strip_lower by (simp add: lower_def)

lemma strip_Nil: "strip [] = []"
  by (simp add: strip_def)

lemma index_of_None: "(index_of x ys = None) = (x \<notin> set ys)"
  by (induction ys) (auto split: option.splits)

lemma index_of_Some:
  "index_of x ys = Some i \<Longrightarrow>
   take i ys = takeWhile (\<lambda>y. y \<noteq> x) ys \<and> drop i ys = dropWhile (\<lambda>y. y \<noteq> x) ys"
  by (induction ys arbitrary: i) (auto split: option.splits if_splits)

text \<open>
  Claim C7, as amended. \<^verbatim>\<open>_add_new_annotation_type\<close> normalises the name typed by
  lowercasing and trimming it. A cancelled dialog or an empty result changes nothing. A
  result that is in the list of types already leaves the list (and the file) as it is and
  selects that type. Any other result is inserted just before the first \<open>other\<close> of the
  list, or appended when there is none, and it is selected. The claim says that the new
  list is persisted before the operation returns; that holds when the write of the types
  file succeeds. When the write fails with an I/O error, \<^verbatim>\<open>_write_json_file\<close> shows an
  error box and the operation goes on: the type is added and selected in memory only.
\<close>

theorem add_category:
  "add_new_annotation_type e None s = s
   \<and> (strip (lower typed) = [] \<longrightarrow> add_new_annotation_type e (Some typed) s = s)
   \<and> (strip (lower typed) \<noteq> [] \<and> strip (lower typed) \<in> set (annotation_types s) \<longrightarrow>
        annotation_types (add_new_annotation_type e (Some typed) s) = annotation_types s
        \<and> annotation_type_var (add_new_annotation_type e (Some typed) s) = strip (lower typed)
        \<and> files (add_new_annotation_type e (Some typed) s) = files s)
   \<and> (strip (lower typed) \<noteq> [] \<and> strip (lower typed) \<notin> set (annotation_types s) \<longrightarrow>
        annotation_types (add_new_annotation_type e (Some typed) s) =
          (if ''other'' \<in> set (annotation_types s)
           then takeWhile (\<lambda>t. t \<noteq> ''other'') (annotation_types s) @ [strip (lower typed)]
                @ dropWhile (\<lambda>t. t \<noteq> ''other'') (annotation_types s)
           else annotation_types s @ [strip (lower typed)])
        \<and> annotation_type_var (add_new_annotation_type e (Some typed) s) = strip (lower typed)
        \<and> (\<not> write_fails e ANNOTATION_TYPES_FILE \<longrightarrow>
             types_file (files (add_new_annotation_type e (Some typed) s)) =
               Parsed (Types_list (annotation_types (add_new_annotation_type e (Some typed) s))))
        \<and> (write_fails e ANNOTATION_TYPES_FILE \<longrightarrow>
             ShowError (''Could not save to '' @ ANNOTATION_TYPES_FILE)
               \<in> set (dialogs (add_new_annotation_type e (Some typed) s))))"
proof -
  let ?n = "strip (lower typed)"
  let ?r = "add_new_annotation_type e (Some typed) s"
  have a: "add_new_annotation_type e None s = s" by (simp add: add_new_annotation_type_def)
  have b: "?n = [] \<longrightarrow> ?r = s"
    by (auto simp: add_new_annotation_type_def strip_lower_empty)
  have ne: "?n \<noteq> [] \<Longrightarrow> typed \<noteq> [] \<and> strip typed \<noteq> []"
    using strip_lower_empty[of typed] strip_Nil by auto
  have c: "?n \<noteq> [] \<and> ?n \<in> set (annotation_types s) \<longrightarrow>
        annotation_types ?r = annotation_types s \<and> annotation_type_var ?r = ?n \<and> files ?r = files s"
    using ne by (auto simp: add_new_annotation_type_def Let_def)
  have d: "?n \<noteq> [] \<and> ?n \<notin> set (annotation_types s) \<longrightarrow>
        annotation_types ?r =
          (if ''other'' \<in> set (annotation_types s)
           then takeWhile (\<lambda>t. t \<noteq> ''other'') (annotation_types s) @ [?n]
                @ dropWhile (\<lambda>t. t \<noteq> ''other'') (annotation_types s)
           else annotation_types s @ [?n])
        \<and> annotation_type_var ?r = ?n
        \<and> (\<not> write_fails e ANNOTATION_TYPES_FILE \<longrightarrow>
             types_file (files ?r) = Parsed (Types_list (annotation_types ?r)))
        \<and> (write_fails e ANNOTATION_TYPES_FILE \<longrightarrow>
             ShowError (''Could not save to '' @ ANNOTATION_TYPES_FILE) \<in> set (dialogs ?r))"
  proof (intro impI, elim conjE)
    assume n1: "?n \<noteq> []" and n2: "?n \<notin> set (annotation_types s)"
    from ne[OF n1] have t: "typed \<noteq> []" "strip typed \<noteq> []" by simp_all
    show "annotation_types ?r =
          (if ''other'' \<in> set (annotation_types s)
           then takeWhile (\<lambda>t. t \<noteq> ''other'') (annotation_types s) @ [?n]
                @ dropWhile (\<lambda>t. t \<noteq> ''other'') (annotation_types s)
           else annotation_types s @ [?n])
        \<and> annotation_type_var ?r = ?n
        \<and> (\<not> write_fails e ANNOTATION_TYPES_FILE \<longrightarrow>
             types_file (files ?r) = Parsed (Types_list (annotation_types ?r)))
        \<and> (write_fails e ANNOTATION_TYPES_FILE \<longrightarrow>
             ShowError (''Could not save to '' @ ANNOTATION_TYPES_FILE) \<in> set (dialogs ?r))"
    proof (cases "index_of ''other'' (annotation_types s)")
      case None
      then have "''other'' \<notin> set (annotation_types s)" by (simp add: index_of_None)
      with None t n2 show ?thesis
        by (simp add: add_new_annotation_type_def Let_def rebuild_annotation_widgets_def
              save_annotation_types_def write_json_file_def write_fails_def
              split: write_result.splits)
    next
      case (Some i)
      then have "''other'' \<in> set (annotation_types s)"
        using index_of_None[of "''other''" "annotation_types s"] by auto
      with Some t n2 index_of_Some[OF Some] show ?thesis
        by (simp add: add_new_annotation_type_def Let_def rebuild_annotation_widgets_def
              save_annotation_types_def write_json_file_def write_fails_def
              split: write_result.splits)
    qed
  qed
  from a b c d show ?thesis by blast
qed

theorem add_category_witness:
  "strip (lower ''Tables'') = ''tables''
   \<and> strip (lower (''Tables'' @ [CHR 0xA0])) = ''tables''
   \<and> annotation_types (init one_group_env empty_disk)
       = [''paragraphs'', ''tables'', ''images'', ''headings'', ''other'']
   \<and> annotation_types (add_new_annotation_type one_group_env (Some ''Tables'') (init one_group_env empty_disk))
       = annotation_types (init one_group_env empty_disk)
   \<and> annotation_type_var (add_new_annotation_type one_group_env (Some ''Tables'') (init one_group_env empty_disk))
       = ''tables''
   \<and> annotation_types (add_new_annotation_type one_group_env (Some '' Figures '') (init one_group_env empty_disk))
       = [''paragraphs'', ''tables'', ''images'', ''headings'', ''figures'', ''other'']
   \<and> types_file (files (add_new_annotation_type one_group_env (Some '' Figures '') (init one_group_env empty_disk)))
       = Parsed (Types_list [''paragraphs'', ''tables'', ''images'', ''headings'', ''figures'', ''other''])
   \<and> add_new_annotation_type one_group_env (Some ''   '') (init one_group_env empty_disk)
       = init one_group_env empty_disk"
proof -
  let ?s = "init one_group_env empty_disk"
  have t: "annotation_types ?s = [''paragraphs'', ''tables'', ''images'', ''headings'', ''other'']"
    by code_simp
  have n1: "strip (lower ''Tables'') = ''tables''" by code_simp
  have n0: "strip (lower (''Tables'' @ [CHR 0xA0])) = ''tables''" by code_simp
  have n2: "strip (lower '' Figures '') = ''figures''" by code_simp
  have n3: "strip (lower ''   '') = []" by code_simp
  have w: "\<not> write_fails one_group_env ANNOTATION_TYPES_FILE" by code_simp
  note a1 = add_category [of one_group_env ?s "''Tables''", unfolded n1 t]
  note a2 = add_category [of one_group_env ?s "'' Figures ''", unfolded n2 t]
  note a3 = add_category [of one_group_env ?s "''   ''", unfolded n3]
  from a1 have 1: "annotation_types (add_new_annotation_type one_group_env (Some ''Tables'') ?s)
                     = [''paragraphs'', ''tables'', ''images'', ''headings'', ''other'']
                 \<and> annotation_type_var (add_new_annotation_type one_group_env (Some ''Tables'') ?s) = ''tables''"
    by simp
  from a2 w have 2: "annotation_types (add_new_annotation_type one_group_env (Some '' Figures '') ?s)
       = [''paragraphs'', ''tables'', ''images'', ''headings'', ''figures'', ''other'']
     \<and> types_file (files (add_new_annotation_type one_group_env (Some '' Figures '') ?s))
       = Parsed (Types_list [''paragraphs'', ''tables'', ''images'', ''headings'', ''figures'', ''other''])"
    by simp
  from a3 have 3: "add_new_annotation_type one_group_env (Some ''   '') ?s = ?s" by simp
  from n0 n1 t 1 2 3 show ?thesis by simp
qed

text \<open>
  The claim as stated fails when the types file cannot be written: the new type is in the
  list in memory, and the file still holds the list without it.
\<close>

theorem add_category_not_persisted_counterexample:
  "write_fails readonly_env ANNOTATION_TYPES_FILE
   \<and> annotation_types (init readonly_env types_disk)
       = [''paragraphs'', ''tables'', ''images'', ''headings'', ''other'']
   \<and> annotation_types (add_new_annotation_type readonly_env (Some ''Figures'')
        (init readonly_env types_disk))
       = [''paragraphs'', ''tables'', ''images'', ''headings'', ''figures'', ''other'']
   \<and> types_file (files (add_new_annotation_type readonly_env (Some ''Figures'')
        (init readonly_env types_disk)))
       = Parsed (Types_list [''paragraphs'', ''tables'', ''images'', ''headings'', ''other''])"
  by code_simp

section \<open>Every state of a session is well formed\<close>

text \<open>
  The hypotheses that the theorems above make on a state (an active group is the one its
  index names, the working lists are allocated) hold in every state that a session
  reaches from its start, whatever the disk and the folder hold and whatever the user
  does: \<open>reachable_well_formed\<close>.
\<close>


lemma store_allocated_mono:
  "store_allocated s \<Longrightarrow> annotations_data t = annotations_data s \<Longrightarrow> next_addr s \<le> next_addr t \<Longrightarrow>
   store_allocated t"
  by (fastforce simp: store_allocated_def list_all_iff)

lemma load_slot_next: "next_addr s \<le> next_addr (load_slot e n fs ann s i)"
  by (simp add: load_slot_def Let_def)

lemma load_slots_next: "next_addr s \<le> next_addr (foldl (load_slot e n fs ann) s is)"
proof (induction "is" arbitrary: s)
  case Nil
  then show ?case by simp
next
  case (Cons i "is")
  from load_slot_next[of s e n fs ann i] Cons[of "load_slot e n fs ann s i"]
  show ?case by simp
qed

lemma load_next: "next_addr s \<le> next_addr (load_subfolder_by_index e idx s)"
proof (cases "0 \<le> idx \<and> idx < int (length (subfolders s))")
  case False
  then show ?thesis by (simp add: load_out_of_range)
next
  case True
  then have r: "0 \<le> idx" "idx < int (length (subfolders s))" by simp_all
  from load_shape[OF r, of e] obtain t ann where
    l: "load_subfolder_by_index e idx s =
          (foldl (load_slot e (subfolders s ! nat idx) (image_files_of e (subfolders s ! nat idx)) ann)
             t [0, 1, 2, 3])\<lparr>unsaved_changes := False\<rparr>"
    and n: "next_addr t = next_addr s" by blast
  from load_slots_next[of t e "subfolders s ! nat idx" "image_files_of e (subfolders s ! nat idx)" ann "[0, 1, 2, 3]"]
  show ?thesis unfolding l using n by simp
qed

lemma load_well_formed:
  assumes "well_formed s"
  shows "well_formed (load_subfolder_by_index e idx s)"
proof (cases "0 \<le> idx \<and> idx < int (length (subfolders s))")
  case False
  then have "load_subfolder_by_index e idx s =
     s\<lparr>dialogs := dialogs s @ [ShowInfo ''You have reached the beginning or end of the subfolders.'']\<rparr>"
    by (rule load_out_of_range)
  with assms show ?thesis by (simp add: well_formed_def store_allocated_def)
next
  case True
  then have r: "0 \<le> idx" "idx < int (length (subfolders s))" by simp_all
  let ?l = "load_subfolder_by_index e idx s"
  from load_apart[OF r, of e]
  have w: "list_all (\<lambda>a. a < next_addr ?l) (map snd (current_subfolder_active_annotations ?l))"
    by (simp add: lists_apart_def)
  from assms have "store_allocated s" by (simp add: well_formed_def)
  then have st: "store_allocated ?l"
    using load_in_range(7)[OF r, of e] load_next[of s e idx] by (rule store_allocated_mono)
  from r w st show ?thesis
    by (simp add: well_formed_def load_in_range(3,4,6)[OF r])
qed

lemma append_bbox_well_formed: "well_formed s \<Longrightarrow> well_formed (append_bbox img b s)"
proof (cases "map_of (current_subfolder_active_annotations s) img")
  case None
  assume wf: "well_formed s"
  let ?w = "current_subfolder_active_annotations s"
  from wf have a: "list_all (\<lambda>a. a < next_addr s) (map snd ?w)" and st: "store_allocated s"
    by (simp_all add: well_formed_def)
  from a have "list_all (\<lambda>a. a < Suc (next_addr s)) (map snd (?w @ [(img, next_addr s)]))"
    by (auto simp: list_all_iff)
  moreover have "store_allocated (append_bbox img b s)"
    using st by (rule store_allocated_mono) (simp_all add: append_bbox_def None)
  ultimately show ?thesis using wf None
    by (simp add: well_formed_def append_bbox_def update_absent)
next
  case (Some a)
  assume "well_formed s"
  with Some show ?thesis by (simp add: well_formed_def append_bbox_def store_allocated_def)
qed

lemma well_formed_frame:
  "well_formed (s\<lparr>canvas_drawing_state := cds\<rparr>) = well_formed s"
  "well_formed (s\<lparr>undo_stack := u\<rparr>) = well_formed s"
  "well_formed (s\<lparr>unsaved_changes := f\<rparr>) = well_formed s"
  "well_formed (s\<lparr>dialogs := dl\<rparr>) = well_formed s"
  "well_formed (s\<lparr>files := fl\<rparr>) = well_formed s"
  "well_formed (s\<lparr>annotation_type_var := v\<rparr>) = well_formed s"
  "well_formed (s\<lparr>annotation_types := ts\<rparr>) = well_formed s"
  "well_formed (s\<lparr>combo_values := cv\<rparr>) = well_formed s"
  "well_formed (s\<lparr>progress_data := p\<rparr>) = well_formed s"
  "well_formed (s\<lparr>heap := h\<rparr>) = well_formed s"
  "well_formed (s\<lparr>root_destroyed := rd\<rparr>) = well_formed s"
  by (simp_all add: well_formed_def store_allocated_def)

lemma press_well_formed: "well_formed s \<Longrightarrow> well_formed (on_canvas_press c x y s)"
  by (simp add: on_canvas_press_def Let_def well_formed_frame)

lemma release_well_formed: "well_formed s \<Longrightarrow> well_formed (on_canvas_release c x y s)"
  unfolding release_cases Let_def
  by (cases "image_name (canvas_drawing_state s c)")
     (simp_all add: well_formed_frame append_bbox_well_formed)

lemma undo_well_formed: "well_formed s \<Longrightarrow> well_formed (action_undo_last_bbox s)"
  unfolding undo_cases
  by (simp add: well_formed_frame split: option.splits)

lemma write_json_file_well_formed:
  "well_formed (write_json_file e p put s) = well_formed s"
  by (simp add: write_json_file_def well_formed_frame split: write_result.splits)

lemma update_list_all:
  "list_all P al \<Longrightarrow> P (k, v) \<Longrightarrow> list_all P (AList.update k v al)"
  using update_set[of k v al] by (auto simp: list_all_iff)

lemma save_next_well_formed:
  assumes "well_formed s"
  shows "well_formed (snd (action_save_annotations e True s))"
proof (cases "current_subfolder_name s = []")
  case True
  with assms show ?thesis by (simp add: action_save_annotations_def)
next
  case False
  let ?t = "snd (action_save_annotations e True s)"
  note tf = save_next_fields[OF False, of e]
  from assms have w: "list_all (\<lambda>a. a < next_addr s) (map snd (current_subfolder_active_annotations s))"
    and st: "store_allocated s" by (simp_all add: well_formed_def)
  have "store_allocated ?t"
    unfolding store_allocated_def tf(10,11)
    using st w by (intro update_list_all) (simp_all add: store_allocated_def)
  with assms show ?thesis by (simp add: well_formed_def tf)
qed

lemma save_well_formed:
  assumes "well_formed s"
  shows "well_formed (snd (action_save_annotations e False s))"
proof (cases "current_subfolder_name s = []")
  case True
  with assms show ?thesis by (simp add: action_save_annotations_def)
next
  case False
  show ?thesis unfolding save_reload[OF False]
    by (intro load_well_formed save_next_well_formed assms)
qed

lemma save_and_next_well_formed:
  "well_formed s \<Longrightarrow> well_formed (action_save_and_next e s)"
  unfolding save_and_next_eq by (simp add: load_well_formed save_next_well_formed)

lemma previous_well_formed:
  "well_formed s \<Longrightarrow> well_formed (action_previous_subfolder e go s)"
  by (simp add: action_previous_subfolder_def load_well_formed)

lemma clear_step_well_formed:
  "well_formed s \<Longrightarrow>
   well_formed (s\<lparr>current_subfolder_active_annotations :=
                    AList.update k (next_addr s) (current_subfolder_active_annotations s),
                  heap := (heap s)(next_addr s := []),
                  next_addr := Suc (next_addr s)\<rparr>)"
proof -
  assume wf: "well_formed s"
  let ?w = "current_subfolder_active_annotations s"
  from wf have a: "list_all (\<lambda>a. a < next_addr s) (map snd ?w)" and st: "store_allocated s"
    by (simp_all add: well_formed_def)
  have "list_all (\<lambda>a. a < Suc (next_addr s)) (map snd (AList.update k (next_addr s) ?w))"
    using update_addrs[of k "next_addr s" ?w] a by (fastforce simp: list_all_iff)
  moreover have "store_allocated (s\<lparr>current_subfolder_active_annotations :=
                    AList.update k (next_addr s) ?w,
                  heap := (heap s)(next_addr s := []),
                  next_addr := Suc (next_addr s)\<rparr>)"
    using st by (rule store_allocated_mono) simp_all
  ultimately show ?thesis using wf by (simp add: well_formed_def)
qed

lemma clear_fold_well_formed:
  "well_formed s \<Longrightarrow>
   well_formed (foldl (\<lambda>s img_name.
              s\<lparr>current_subfolder_active_annotations :=
                  AList.update img_name (next_addr s) (current_subfolder_active_annotations s),
                heap := (heap s)(next_addr s := []),
                next_addr := Suc (next_addr s)\<rparr>) s ks)"
  by (induction ks arbitrary: s) (simp_all add: clear_step_well_formed)

lemma clear_well_formed:
  "well_formed s \<Longrightarrow> well_formed (action_clear_current_annotations e confirmed s)"
  by (simp add: action_clear_current_annotations_def clear_lists_def well_formed_frame
        load_well_formed clear_fold_well_formed)

lemma rebuild_well_formed: "well_formed (rebuild_annotation_widgets s) = well_formed s"
  by (simp add: rebuild_annotation_widgets_def Let_def well_formed_frame)

lemma add_type_well_formed:
  "well_formed s \<Longrightarrow> well_formed (add_new_annotation_type e answer s)"
  by (simp add: add_new_annotation_type_def Let_def well_formed_frame rebuild_well_formed
        save_annotation_types_def write_json_file_well_formed
        split: option.splits)

lemma select_type_well_formed:
  "well_formed s \<Longrightarrow> well_formed (on_annotation_type_select v s)"
  by (simp add: on_annotation_type_select_def well_formed_frame)

lemma step_well_formed: "well_formed s \<Longrightarrow> well_formed (step e s a)"
  by (cases a)
     (simp_all add: press_well_formed release_well_formed undo_well_formed save_well_formed
        save_and_next_well_formed previous_well_formed clear_well_formed add_type_well_formed
        select_type_well_formed)

lemma run_well_formed: "well_formed s \<Longrightarrow> well_formed (run e acts s)"
  unfolding run_def by (induction acts arbitrary: s) (simp_all add: step_well_formed)


lemma thaw_images_alloc:
  "list_all (\<lambda>a. a < n) (map snd d) \<Longrightarrow> thaw_images imgs (d, h, n) = (d', h', n') \<Longrightarrow>
   n \<le> n' \<and> list_all (\<lambda>a. a < n') (map snd d')"
proof (induction imgs arbitrary: d h n)
  case Nil
  then show ?case by simp
next
  case (Cons p imgs)
  obtain k bs where p: "p = (k, bs)" by (cases p)
  from Cons.prems(1) update_addrs[of k n d]
  have "list_all (\<lambda>a. a < Suc n) (map snd (AList.update k n d))"
    by (fastforce simp: list_all_iff)
  from Cons.IH[OF this] Cons.prems(2) show ?case unfolding p by fastforce
qed

lemma thaw_alloc:
  "list_all (\<lambda>(g, d). list_all (\<lambda>a. a < n) (map snd (annotations d))) st \<Longrightarrow>
   thaw js (st, h, n) = (st', h', n') \<Longrightarrow>
   n \<le> n' \<and> list_all (\<lambda>(g, d). list_all (\<lambda>a. a < n') (map snd (annotations d))) st'"
proof (induction js arbitrary: st h n)
  case Nil
  then show ?case by simp
next
  case (Cons j js)
  obtain g t imgs where j: "j = (g, t, imgs)" by (cases j)
  obtain d h1 n1 where ti: "thaw_images imgs ([], h, n) = (d, h1, n1)"
    by (cases "thaw_images imgs ([], h, n)")
  from thaw_images_alloc[OF _ ti] have n1: "n \<le> n1" "list_all (\<lambda>a. a < n1) (map snd d)" by simp_all
  have old: "list_all (\<lambda>(g, d). list_all (\<lambda>a. a < n1) (map snd (annotations d))) st"
    using Cons.prems(1) n1(1) by (fastforce simp: list_all_iff)
  have "list_all (\<lambda>(g, d). list_all (\<lambda>a. a < n1) (map snd (annotations d)))
          (AList.update g \<lparr>type_of_annotation = t, annotations = d\<rparr> st)"
    using old n1(2) by (intro update_list_all) simp_all
  from Cons.IH[OF this] Cons.prems(2) n1(1) show ?case unfolding j by (simp add: ti) fastforce
qed

lemma load_annotations_well_formed:
  assumes "well_formed s"
  shows "well_formed (load_annotations_from_file s)"
proof -
  obtain st h n where t: "thaw (read_json_file (annotations_file (files s)) []) ([], heap s, next_addr s)
                            = (st, h, n)"
    by (cases "thaw (read_json_file (annotations_file (files s)) []) ([], heap s, next_addr s)")
  from thaw_alloc[OF _ t] have n: "next_addr s \<le> n"
    and st: "list_all (\<lambda>(g, d). list_all (\<lambda>a. a < n) (map snd (annotations d))) st" by simp_all
  from assms n have "list_all (\<lambda>a. a < n) (map snd (current_subfolder_active_annotations s))"
    by (auto simp: well_formed_def list_all_iff)
  with assms st show ?thesis
    by (simp add: load_annotations_from_file_def t well_formed_def store_allocated_def)
qed

lemma new_app_well_formed: "well_formed (new_app d)"
  by (simp add: well_formed_def store_allocated_def new_app_def)

lemma load_annotation_types_well_formed:
  "well_formed (load_annotation_types e s) = well_formed s"
  by (simp add: load_annotation_types_def save_annotation_types_def write_json_file_well_formed
        well_formed_frame split: json_file.splits types_json.splits)

lemma well_formed_subfolders:
  "well_formed s \<Longrightarrow> current_subfolder_name s = [] \<Longrightarrow> well_formed (s\<lparr>subfolders := ds\<rparr>)"
  by (simp add: well_formed_def store_allocated_def)

lemma init_fields_name:
  "current_subfolder_name (rebuild_annotation_widgets (load_annotation_types e (new_app d))) = []"
  by (simp add: rebuild_annotation_widgets_def Let_def load_annotation_types_def
        save_annotation_types_def write_json_file_def new_app_def
        split: json_file.splits types_json.splits write_result.splits)

lemma discover_well_formed:
  "well_formed s \<Longrightarrow> current_subfolder_name s = [] \<Longrightarrow> well_formed (discover_subfolders e s)"
  by (simp add: discover_subfolders_def well_formed_frame well_formed_subfolders split: option.splits)

lemma load_initial_state_well_formed:
  "well_formed s \<Longrightarrow> current_subfolder_name s = [] \<Longrightarrow> well_formed (load_initial_state e s)"
  by (simp add: load_initial_state_def Let_def well_formed_frame discover_well_formed
        load_progress_from_file_def load_annotations_well_formed load_well_formed)

lemma init_well_formed: "well_formed (init e d)"
  unfolding init_def
  by (intro load_initial_state_well_formed init_fields_name)
     (simp add: rebuild_well_formed load_annotation_types_well_formed new_app_well_formed)

lemma reachable_well_formed: "well_formed (run e acts (init e d))"
  by (intro run_well_formed init_well_formed)

section \<open>The saved store and the working lists\<close>


lemma load_copies:
  assumes "0 \<le> idx" "idx < int (length (subfolders s))"
    and "list_all (\<lambda>a. a < next_addr s)
           (map snd (case map_of (annotations_data s) (subfolders s ! nat idx) of
                       None \<Rightarrow> [] | Some d \<Rightarrow> annotations d))"
  shows "copies_of (next_addr s) (heap s)
           (case map_of (annotations_data s) (subfolders s ! nat idx) of
              None \<Rightarrow> [] | Some d \<Rightarrow> annotations d)
           (load_subfolder_by_index e idx s)"
proof -
  let ?n = "subfolders s ! nat idx"
  let ?fs = "image_files_of e ?n"
  let ?ann = "case map_of (annotations_data s) ?n of None \<Rightarrow> [] | Some d \<Rightarrow> annotations d"
  from load_shape[OF assms(1,2), of e] obtain t where
    l: "load_subfolder_by_index e idx s =
          (foldl (load_slot e ?n ?fs ?ann) t [0, 1, 2, 3])\<lparr>unsaved_changes := False\<rparr>"
    and w: "current_subfolder_active_annotations t = []"
    and h: "heap t = heap s" and n: "next_addr t = next_addr s" by blast
  have c0: "copies_of (next_addr s) (heap s) ?ann t" using w h n by (simp add: copies_of_def)
  have "copies_of (next_addr s) (heap s) ?ann (foldl (load_slot e ?n ?fs ?ann) t [0, 1, 2, 3])"
    using c0 assms(3) by (rule load_slots_copies)
  then show ?thesis unfolding l by (simp add: copies_of_def)
qed

lemma copies_out_of_reach: "copies_of n0 h0 ann s \<Longrightarrow> out_of_reach n0 h0 s"
  by (auto simp: copies_of_def out_of_reach_def list_all_iff)

lemma out_of_reach_frame:
  "out_of_reach n0 h0 (s\<lparr>canvas_drawing_state := cds\<rparr>) = out_of_reach n0 h0 s"
  "out_of_reach n0 h0 (s\<lparr>undo_stack := u\<rparr>) = out_of_reach n0 h0 s"
  "out_of_reach n0 h0 (s\<lparr>unsaved_changes := f\<rparr>) = out_of_reach n0 h0 s"
  by (simp_all add: out_of_reach_def)

lemma append_bbox_out_of_reach:
  assumes "out_of_reach n0 h0 s"
  shows "out_of_reach n0 h0 (append_bbox img b s)"
proof (cases "map_of (current_subfolder_active_annotations s) img")
  case None
  with assms show ?thesis
    by (auto simp: out_of_reach_def append_bbox_def update_absent list_all_iff)
next
  case (Some a)
  then have "a \<in> set (map snd (current_subfolder_active_annotations s))" by (rule map_of_addr_in)
  with assms have "n0 \<le> a" by (auto simp: out_of_reach_def list_all_iff)
  with assms Some show ?thesis by (auto simp: out_of_reach_def append_bbox_def)
qed

lemma append_bbox_store: "annotations_data (append_bbox img b s) = annotations_data s"
  by (simp add: append_bbox_def split: option.splits)

lemma drawing_step:
  assumes "is_drawing a" and "out_of_reach n0 h0 s"
  shows "out_of_reach n0 h0 (step e s a) \<and> annotations_data (step e s a) = annotations_data s"
proof (cases a)
  case (Press c x y)
  with assms(2) show ?thesis by (simp add: on_canvas_press_def Let_def out_of_reach_frame)
next
  case (Release c x y)
  show ?thesis unfolding Release step.simps release_cases Let_def
    using assms(2)
    by (cases "image_name (canvas_drawing_state s c)")
       (simp_all add: out_of_reach_frame append_bbox_out_of_reach append_bbox_store)
next
  case Undo
  have "out_of_reach n0 h0 (action_undo_last_bbox s)"
  proof (cases "map_of (current_subfolder_active_annotations s) (snd (last (undo_stack s)))")
    case None
    with assms(2) show ?thesis unfolding undo_cases by (simp add: out_of_reach_frame)
  next
    case (Some a')
    then have "a' \<in> set (map snd (current_subfolder_active_annotations s))" by (rule map_of_addr_in)
    with assms(2) have "n0 \<le> a'" by (auto simp: out_of_reach_def list_all_iff)
    with assms(2) Some show ?thesis unfolding undo_cases by (auto simp: out_of_reach_def)
  qed
  moreover have "annotations_data (action_undo_last_bbox s) = annotations_data s"
    unfolding undo_cases by (simp split: option.splits)
  ultimately show ?thesis using Undo by simp
qed (use assms(1) in simp_all)

lemma drawing_run:
  "list_all is_drawing acts \<Longrightarrow> out_of_reach n0 h0 s \<Longrightarrow>
   out_of_reach n0 h0 (run e acts s) \<and> annotations_data (run e acts s) = annotations_data s"
proof (induction acts arbitrary: s)
  case Nil
  then show ?case by (simp add: run_def)
next
  case (Cons a acts)
  from Cons.prems have a: "is_drawing a" and r: "list_all is_drawing acts" by simp_all
  from drawing_step[OF a Cons.prems(2), of e]
  have 1: "out_of_reach n0 h0 (step e s a)" and 2: "annotations_data (step e s a) = annotations_data s"
    by simp_all
  from Cons.IH[OF r 1] 2 show ?case by (simp add: run_def)
qed

lemma stored_boxes_out_of_reach:
  assumes "out_of_reach n0 h0 s"
    and "list_all (\<lambda>(g, d). list_all (\<lambda>a. a < n0) (map snd (annotations d))) (annotations_data s)"
  shows "stored_boxes s g img =
           (case map_of (annotations_data s) g of
              None \<Rightarrow> [] | Some d \<Rightarrow> boxes_of h0 (annotations d) img)"
proof (cases "map_of (annotations_data s) g")
  case None
  then show ?thesis by (simp add: stored_boxes_def)
next
  case (Some d)
  then have "(g, d) \<in> set (annotations_data s)" by (rule map_of_SomeD)
  with assms(2) have "list_all (\<lambda>a. a < n0) (map snd (annotations d))"
    by (auto simp: list_all_iff)
  moreover from assms(1) have "\<forall>a < n0. heap s a = h0 a" by (simp add: out_of_reach_def)
  ultimately have "boxes_of (heap s) (annotations d) img = boxes_of h0 (annotations d) img"
    by (rule boxes_of_agree)
  with Some show ?thesis by (simp add: stored_boxes_def)
qed

lemma plain_save_store_out_of_reach:
  assumes "well_formed s" and "current_subfolder_name s \<noteq> []" and "list_all is_drawing acts"
  shows "stored_boxes (run e acts (snd (action_save_annotations e False s))) g img
           = stored_boxes (snd (action_save_annotations e False s)) g img"
    and "stored_boxes (snd (action_save_annotations e False s)) (current_subfolder_name s) img
           = slot_boxes s img"
proof -
  let ?idx = "current_subfolder_index s"
  let ?t = "snd (action_save_annotations e True s)"
  let ?r = "load_subfolder_by_index e ?idx ?t"
  note tf = save_next_fields[OF assms(2), of e]
  have sv: "snd (action_save_annotations e False s) = ?r" using assms(2) by (rule save_reload)
  from assms(1,2) have rng: "0 \<le> ?idx" "?idx < int (length (subfolders ?t))"
    and nm: "subfolders ?t ! nat ?idx = current_subfolder_name s"
    by (simp_all add: well_formed_def tf(3))
  have wt: "well_formed ?t" using assms(1) by (rule save_next_well_formed)
  then have st: "list_all (\<lambda>(g, d). list_all (\<lambda>a. a < next_addr ?t) (map snd (annotations d)))
                   (annotations_data ?t)"
    by (simp add: well_formed_def store_allocated_def)
  have rec: "map_of (annotations_data ?t) (current_subfolder_name s)
               = Some \<lparr>type_of_annotation = Some (annotation_type_var s),
                       annotations = current_subfolder_active_annotations s\<rparr>"
    by (simp add: tf(11) update_conv')
  have ann: "list_all (\<lambda>a. a < next_addr ?t)
               (map snd (case map_of (annotations_data ?t) (subfolders ?t ! nat ?idx) of
                           None \<Rightarrow> [] | Some d \<Rightarrow> annotations d))"
    using assms(1) by (simp add: nm rec tf(10) well_formed_def)
  from load_copies[OF rng ann, of e] have o: "out_of_reach (next_addr ?t) (heap ?t) ?r"
    by (rule copies_out_of_reach)
  have ad: "annotations_data ?r = annotations_data ?t" by (rule load_in_range(7)[OF rng])
  from drawing_run[OF assms(3) o, of e]
  have o': "out_of_reach (next_addr ?t) (heap ?t) (run e acts ?r)"
    and ad': "annotations_data (run e acts ?r) = annotations_data ?t" using ad by simp_all
  from stored_boxes_out_of_reach[OF o' st[folded ad'], of g img]
       stored_boxes_out_of_reach[OF o st[folded ad], of g img]
  show "stored_boxes (run e acts (snd (action_save_annotations e False s))) g img
           = stored_boxes (snd (action_save_annotations e False s)) g img"
    unfolding sv by (simp add: ad ad')
  from stored_boxes_out_of_reach[OF o st[folded ad], of "current_subfolder_name s" img]
  show "stored_boxes (snd (action_save_annotations e False s)) (current_subfolder_name s) img
           = slot_boxes s img"
    unfolding sv by (simp add: ad rec tf(9) slot_boxes_def)
qed

text \<open>
  Claim C2. What a save records in the annotation store is meant to be independent of the
  working annotations. \<^verbatim>\<open>_action_save_annotations\<close> copies the working dictionary but
  not the lists in it, and it is the reload after a plain save that replaces the working
  lists by copies: after a plain save no run of draws and undos changes the boxes the
  store records, for any group (\<open>plain_save_store_out_of_reach\<close>). Save-and-next on the
  last group finds no group to load, so the store record of \<open>A\<close> and the working
  annotations keep sharing the list of \<open>a.png\<close>: the file written holds the one box drawn
  before the save, and a box drawn afterwards, or an undo, changes the boxes recorded in
  the store for \<open>A\<close> without any save. After a plain save the same draw leaves the store
  record alone.
\<close>

theorem saved_store_shares_lists:
  "annotations_file (files (action_save_and_next one_group_env (one_box_session one_group_env)))
     = Parsed [(''A'', Some ''paragraphs'', [(''a.png'', [[10, 10, 100, 100]])])]
   \<and> stored_boxes (action_save_and_next one_group_env (one_box_session one_group_env)) ''A'' ''a.png''
     = [[10, 10, 100, 100]]
   \<and> stored_boxes (draw 0 (20, 20) (200, 200)
        (action_save_and_next one_group_env (one_box_session one_group_env))) ''A'' ''a.png''
     = [[10, 10, 100, 100], [20, 20, 200, 200]]
   \<and> stored_boxes (action_undo_last_bbox
        (action_save_and_next one_group_env (one_box_session one_group_env))) ''A'' ''a.png''
     = []
   \<and> stored_boxes (draw 0 (20, 20) (200, 200)
        (snd (action_save_annotations one_group_env False (one_box_session one_group_env)))) ''A'' ''a.png''
     = [[10, 10, 100, 100]]"
  by code_simp

end
